theory Spec2Isabelle
  imports Main
begin
section \<open>text-to-matrix.py: a font rendered as a table of pixel rows\<close>

text \<open>
  The script picks a font size by an ascending search over sizes, rasterises every
  character of an alphabet on a common canvas, keeps the rows that some glyph uses
  (and their neighbours), and writes each kept row as hexadecimal byte literals with
  a comment of 1 and 0 characters.

  The font engine (PIL) is outside the script. It enters the model as a parameter:
  a font is a function from the size to a font instance, and a font instance is what
  the script asks of it, \<open>getbbox\<close> and the grey value that \<open>draw.text\<close> leaves at
  a pixel (row, then column) of a canvas that was filled with 255.
\<close>

subsection \<open>Exceptions\<close>

datatype py_error = IndexError | ValueError | UnboundLocalError

subsection \<open>Configuration constants\<close>

definition OUTPUT_FILL :: string where
  "OUTPUT_FILL = ''1''"

definition OUTPUT_EMPTY :: string where
  "OUTPUT_EMPTY = ''0''"

definition OUTPUT_SEPARATOR :: string where
  "OUTPUT_SEPARATOR = ''// ''"

definition OUTPUT_HEXA :: bool where
  "OUTPUT_HEXA = True"

subsection \<open>Strings\<close>

definition newline :: char where
  "newline = CHR 0x0A"

definition tab :: char where
  "tab = CHR 0x09"

text \<open>\<open>sep.join(xs)\<close>.\<close>

fun join :: "'a list \<Rightarrow> 'a list list \<Rightarrow> 'a list" where
  "join sep [] = []"
| "join sep [x] = x"
| "join sep (x # y # ys) = x @ sep @ join sep (y # ys)"

definition digit_char :: "nat \<Rightarrow> char" where
  "digit_char d = ''0123456789abcdef'' ! d"

text \<open>\<open>str(n)\<close> of an integer: its decimal digits, with a minus sign when negative.\<close>

fun dec_digits :: "nat \<Rightarrow> string" where
  "dec_digits n =
     (if n < 10 then [digit_char n] else dec_digits (n div 10) @ [digit_char (n mod 10)])"

declare dec_digits.simps [simp del]

definition str :: "int \<Rightarrow> string" where
  "str v = (if v < 0 then CHR ''-'' # dec_digits (nat (- v)) else dec_digits (nat v))"

text \<open>
  \<open>int(s, 2)\<close> on a string of binary digits. The empty string is a ValueError. The
  script only passes strings made of the characters 0 and 1; any other character is a
  ValueError here.
\<close>

definition int_base2 :: "string \<Rightarrow> py_error + int" where
  "int_base2 s =
     (if s = [] \<or> list_ex (\<lambda>c. c \<noteq> CHR ''0'' \<and> c \<noteq> CHR ''1'') s then Inl ValueError
      else Inr (foldl (\<lambda>acc c. 2 * acc + (if c = CHR ''1'' then 1 else 0)) 0 s))"

text \<open>
  \<open>format(num, f'0{width}x')\<close>: lower-case hexadecimal digits, padded with zeros to
  at least \<open>width\<close> characters, the sign counted in the width and written first.
\<close>

fun hex_digits :: "nat \<Rightarrow> string" where
  "hex_digits n =
     (if n < 16 then [digit_char n] else hex_digits (n div 16) @ [digit_char (n mod 16)])"

declare hex_digits.simps [simp del]

definition zero_fill :: "nat \<Rightarrow> string \<Rightarrow> string" where
  "zero_fill width s = replicate (width - length s) (CHR ''0'') @ s"

definition format_hex :: "int \<Rightarrow> nat \<Rightarrow> string" where
  "format_hex num width =
     (if num < 0 then CHR ''-'' # zero_fill (width - 1) (hex_digits (nat (- num)))
      else zero_fill width (hex_digits (nat num)))"

subsection \<open>The font engine\<close>

record 'c font_inst =
  getbbox :: "'c list \<Rightarrow> int \<times> int \<times> int \<times> int"
  draw_text :: "'c list \<Rightarrow> nat \<Rightarrow> nat \<Rightarrow> int"

text \<open>\<open>ImageFont.truetype(font=font, size=size)\<close> is \<open>font size\<close>.\<close>

type_synonym 'c font = "int \<Rightarrow> 'c font_inst"

text \<open>
  A two-dimensional numpy array of integers: the list of its rows and the number of
  columns, which numpy also knows when there is no row. The number of rows is the
  length of the list.
\<close>

record ndarray =
  shape1 :: nat
  cells :: "int list list"

definition shape0 :: "ndarray \<Rightarrow> nat" where
  "shape0 arr = length (cells arr)"

definition well_shaped :: "ndarray \<Rightarrow> bool" where
  "well_shaped arr = list_all (\<lambda>row. length row = shape1 arr) (cells arr)"

text \<open>\<open>np.where(arr, a, b)\<close>, on one row and on all rows: a where the entry is not zero.\<close>

definition where_row :: "int list \<Rightarrow> 'a \<Rightarrow> 'a \<Rightarrow> 'a list" where
  "where_row row a b = map (\<lambda>v. if v \<noteq> 0 then a else b) row"

definition np_where :: "int list list \<Rightarrow> 'a \<Rightarrow> 'a \<Rightarrow> 'a list list" where
  "np_where arr a b = map (\<lambda>row. where_row row a b) arr"

subsection \<open>Header and footer\<close>

definition generate_header :: string where
  "generate_header =
     [newline] @ ''// This is a file generated by text-to-matrix.py'' @ [newline] @
     ''const uint8_t FontPy_Table [] = {'' @ [newline]"

definition generate_footer :: "int \<Rightarrow> int \<Rightarrow> string" where
  "generate_footer max_width actual_height =
     ''};'' @ [newline] @
     ''  /* Width = '' @ str max_width @ '' */'' @ [newline] @
     ''  /* Height = '' @ str actual_height @ '' */'' @ [newline]"

subsection \<open>Measuring and rasterising\<close>

definition get_letter_dimensions :: "'c list \<Rightarrow> 'c font_inst \<Rightarrow> int \<times> int" where
  "get_letter_dimensions text font =
     (case getbbox font text of (l, t, r, b) \<Rightarrow> (r - l, b - t))"

text \<open>
  \<open>char_to_pixels\<close>: a canvas of \<open>height\<close> rows and \<open>width\<close> columns; a pixel that
  the engine left at 0 becomes 255 and every other pixel becomes 0; the mask says which
  rows have a pixel that is not 0. The sizes are natural numbers: the script passes the
  result of \<open>get_max_letter_dimensions\<close>, which is never negative.
\<close>

definition char_to_pixels :: "'c list \<Rightarrow> 'c font_inst \<Rightarrow> nat \<Rightarrow> nat \<Rightarrow> ndarray \<times> bool list" where
  "char_to_pixels text font width height =
     (let image = map (\<lambda>y. map (\<lambda>x. draw_text font text y x) [0..<width]) [0..<height];
          arr = np_where image (0::int) 255;
          arr_mask = map (list_ex (\<lambda>v. v \<noteq> 0)) arr
      in (\<lparr>shape1 = width, cells = arr\<rparr>, arr_mask))"

subsection \<open>Encoding rows\<close>

text \<open>
  \<open>hex_with_padding\<close>: the digits of \<open>format_hex\<close>, cut at every second index,
  each piece after \<open>0x\<close>, the pieces joined by a comma and a space.
\<close>

definition hex_with_padding :: "int \<Rightarrow> nat \<Rightarrow> string" where
  "hex_with_padding num width =
     (let hex_str = format_hex num width;
          pairs = map (\<lambda>i. ''0x'' @ take 2 (drop i hex_str))
                    (map (\<lambda>k. 2 * k) [0..<(length hex_str + 1) div 2])
      in join '', '' pairs)"

text \<open>
  The body of the comprehension for \<open>hex_values\<close>, on one row of \<open>binary_arr\<close>, and
  the one for \<open>comments\<close>, on one row of \<open>comment_arr\<close>.
\<close>

definition hex_value :: "nat \<Rightarrow> int list \<Rightarrow> py_error + string" where
  "hex_value width row =
     (case int_base2 (concat (map str row)) of
        Inl e \<Rightarrow> Inl e
      | Inr num \<Rightarrow> Inr (hex_with_padding num width))"

definition comment :: "string list \<Rightarrow> string" where
  "comment row = concat row"

text \<open>A comprehension whose body may raise stops at the first exception.\<close>

fun map_raising :: "('a \<Rightarrow> py_error + 'b) \<Rightarrow> 'a list \<Rightarrow> py_error + 'b list" where
  "map_raising f [] = Inr []"
| "map_raising f (x # xs) =
     (case f x of
        Inl e \<Rightarrow> Inl e
      | Inr y \<Rightarrow> (case map_raising f xs of Inl e \<Rightarrow> Inl e | Inr ys \<Rightarrow> Inr (y # ys)))"

text \<open>
  \<open>new_array[:arr.shape[0], :arr.shape[1]] = arr\<close> on an array of zeros with
  \<open>max_height\<close> rows and \<open>max_width\<close> columns. The slice is cut to the shape of
  \<open>new_array\<close>; numpy raises ValueError unless the shape of \<open>arr\<close> is that of the
  slice, a dimension of 1 apart, which it broadcasts.
\<close>

definition zero_padded :: "ndarray \<Rightarrow> nat \<Rightarrow> nat \<Rightarrow> py_error + int list list" where
  "zero_padded arr max_height max_width =
     (if (shape0 arr \<le> max_height \<or> shape0 arr = 1) \<and> (shape1 arr \<le> max_width \<or> shape1 arr = 1)
      then Inr (map (\<lambda>i. map (\<lambda>j. if i < shape0 arr \<and> j < shape1 arr
                                     then cells arr ! i ! j else 0) [0..<max_width])
                  [0..<max_height])
      else Inl ValueError)"

text \<open>
  The lines of \<open>result\<close> in \<open>to_bitfield\<close>, and \<open>to_bitfield\<close> itself: the file is
  the text written so far, and the function returns the text after its two writes.
  \<open>math.ceil(max_width / 4)\<close> is computed on integers.
\<close>

definition to_bitfield_result :: "ndarray \<Rightarrow> nat \<Rightarrow> nat \<Rightarrow> py_error + string list" where
  "to_bitfield_result arr max_height max_width =
     (case zero_padded arr max_height max_width of
        Inl e \<Rightarrow> Inl e
      | Inr new_array \<Rightarrow>
          (let width = (max_width + 3) div 4;
               binary_arr = np_where new_array (1::int) 0
           in case map_raising (hex_value width) binary_arr of
                Inl e \<Rightarrow> Inl e
              | Inr hex_values \<Rightarrow>
                  (let comment_arr = np_where new_array OUTPUT_FILL OUTPUT_EMPTY;
                       comments = map comment comment_arr
                   in if OUTPUT_HEXA
                      then Inr (map (\<lambda>(hexa, com). hexa @ '','' @ [tab] @ '' '' @ OUTPUT_SEPARATOR @ com)
                                  (zip hex_values comments))
                      else Inr (map (\<lambda>com. OUTPUT_SEPARATOR @ com) comments))))"

definition to_bitfield :: "string \<Rightarrow> ndarray \<Rightarrow> nat \<Rightarrow> nat \<Rightarrow> py_error + string" where
  "to_bitfield file arr max_height max_width =
     (case to_bitfield_result arr max_height max_width of
        Inl e \<Rightarrow> Inl e
      | Inr result \<Rightarrow> Inr (file @ join [newline] result @ [newline, newline]))"

subsection \<open>The search for the font size\<close>

text \<open>
  The \<open>while\<close> loop of \<open>determine_font_size_by_max_width\<close>, on the variables
  \<open>max_width\<close>, \<open>size\<close> and \<open>last_size\<close>. Nothing bounds the sizes it tries, so
  the loop is a partial function: \<open>None\<close> is a run that never leaves the loop.
  The font engine of the model answers at every size. An engine that refuses a size
  ends the loop with its own exception; that is the engine's doing and not a bound of
  the search, and the model leaves it out.
\<close>

partial_function (option) width_loop ::
  "'c list \<Rightarrow> 'c font \<Rightarrow> int \<Rightarrow> int \<Rightarrow> int \<Rightarrow> int \<Rightarrow> (int \<times> int \<times> int) option" where
  "width_loop string font px_width max_width sz last_size =
     (if max_width < px_width
      then width_loop string font px_width
             (fst (get_letter_dimensions string (font sz))) (sz + 1) sz
      else Some (max_width, sz, last_size))"

declare width_loop.simps [code]

definition determine_font_size_by_max_width :: "'c list \<Rightarrow> 'c font \<Rightarrow> int \<Rightarrow> int option" where
  "determine_font_size_by_max_width string font px_width =
     (case width_loop string font px_width 0 1 1 of
        None \<Rightarrow> None
      | Some (max_width, sz, last_size) \<Rightarrow>
          if max_width > px_width then Some last_size else Some sz)"

text \<open>The same loop on the height; the function takes 2 off the limit first.\<close>

partial_function (option) height_loop ::
  "'c list \<Rightarrow> 'c font \<Rightarrow> int \<Rightarrow> int \<Rightarrow> int \<Rightarrow> int \<Rightarrow> (int \<times> int \<times> int) option" where
  "height_loop string font px_height max_height sz last_size =
     (if max_height < px_height
      then height_loop string font px_height
             (snd (get_letter_dimensions string (font sz))) (sz + 1) sz
      else Some (max_height, sz, last_size))"

declare height_loop.simps [code]

definition determine_font_size_by_max_height :: "'c list \<Rightarrow> 'c font \<Rightarrow> int \<Rightarrow> int option" where
  "determine_font_size_by_max_height string font px_height0 =
     (let px_height = px_height0 - 2
      in case height_loop string font px_height 0 1 1 of
           None \<Rightarrow> None
         | Some (max_height, sz, last_size) \<Rightarrow>
             if max_height > px_height then Some last_size else Some sz)"

subsection \<open>The canvas and the shared row mask\<close>

definition get_max_letter_dimensions :: "'c list \<Rightarrow> 'c font_inst \<Rightarrow> int \<times> int" where
  "get_max_letter_dimensions base_string font_inst =
     (case foldl (\<lambda>(max_width, max_height) char.
                    (case get_letter_dimensions [char] font_inst of
                       (char_width, char_height) \<Rightarrow>
                         (max char_width max_width, max char_height max_height)))
                 (0, 0) base_string of
        (max_width, max_height) \<Rightarrow> (max_width, max_height * 2))"

text \<open>
  The inner loop of \<open>determine_final_height\<close> over the indices of one mask. The three
  reads of the mask are in range for every index of the mask. The write to
  \<open>total_mask\<close> is an IndexError when the index is beyond its end.
\<close>

fun mask_rows :: "bool list \<Rightarrow> nat list \<Rightarrow> bool list \<Rightarrow> py_error + bool list" where
  "mask_rows glyph_mask [] total_mask = Inr total_mask"
| "mask_rows glyph_mask (index # rest) total_mask =
     (if glyph_mask ! index \<or> glyph_mask ! nat (max (int index - 1) 0)
           \<or> glyph_mask ! nat (min (int index + 1) (int (length glyph_mask) - 1))
      then (if index < length total_mask
            then mask_rows glyph_mask rest (total_mask[index := True])
            else Inl IndexError)
      else mask_rows glyph_mask rest total_mask)"

fun all_masks :: "bool list list \<Rightarrow> bool list \<Rightarrow> py_error + bool list" where
  "all_masks [] total_mask = Inr total_mask"
| "all_masks (glyph_mask # rest) total_mask =
     (case mask_rows glyph_mask [0..<length glyph_mask] total_mask of
        Inl e \<Rightarrow> Inl e
      | Inr total_mask' \<Rightarrow> all_masks rest total_mask')"

text \<open>\<open>masks[-1]\<close> is an IndexError on the empty list.\<close>

definition determine_final_height :: "bool list list \<Rightarrow> py_error + bool list \<times> nat" where
  "determine_final_height masks =
     (if masks = [] then Inl IndexError
      else case all_masks masks (replicate (length (last masks)) False) of
             Inl e \<Rightarrow> Inl e
           | Inr total_mask \<Rightarrow> Inr (total_mask, count_list total_mask True))"

subsection \<open>The pipeline\<close>

text \<open>
  \<open>char_arr[total_mask]\<close>: the rows of the array at which the mask is true; an
  IndexError when the mask is not as long as the array has rows. The empty list is no
  mask for numpy but an empty list of row numbers, and selects no row of any array.
\<close>

definition boolean_index :: "ndarray \<Rightarrow> bool list \<Rightarrow> py_error + ndarray" where
  "boolean_index arr row_mask =
     (if row_mask = [] \<or> length row_mask = shape0 arr
      then Inr (arr\<lparr>cells := map fst (filter snd (zip (cells arr) row_mask))\<rparr>)
      else Inl IndexError)"

text \<open>
  The first lines of \<open>font_to_pixels\<close>, which choose the font size. When no branch
  matches, \<open>font_size\<close> has no value and its first use raises UnboundLocalError.
  \<open>None\<close> is a search that does not return.
\<close>

definition resolve_font_size ::
  "'c font \<Rightarrow> 'c list \<Rightarrow> string \<Rightarrow> int \<Rightarrow> int \<Rightarrow> 'c list \<Rightarrow> int \<Rightarrow> (py_error + int) option" where
  "resolve_font_size font_path all_letters font_size_option letter_max_px_width
       str_max_px_width max_width_string input_font_size =
     (if font_size_option = ''font_size'' then Some (Inr input_font_size)
      else if font_size_option = ''letter_max_px_width''
      then map_option Inr
             (determine_font_size_by_max_height all_letters font_path letter_max_px_width)
      else if font_size_option = ''str_max_px_width''
      then map_option Inr
             (determine_font_size_by_max_width max_width_string font_path str_max_px_width)
      else if font_size_option = ''max_px_both''
      then (case determine_font_size_by_max_height all_letters font_path letter_max_px_width of
              None \<Rightarrow> None
            | Some size_by_height \<Rightarrow>
                (case determine_font_size_by_max_width max_width_string font_path
                        str_max_px_width of
                   None \<Rightarrow> None
                 | Some size_by_width \<Rightarrow> Some (Inr (min size_by_height size_by_width))))
      else Some (Inl UnboundLocalError))"

text \<open>
  The loop that writes one block for each letter. An exception leaves the text
  written so far in the file.
\<close>

fun write_letters ::
  "string \<Rightarrow> ndarray list \<Rightarrow> bool list \<Rightarrow> nat \<Rightarrow> nat \<Rightarrow> string \<times> py_error option" where
  "write_letters file [] total_mask actual_height max_width = (file, None)"
| "write_letters file (char_arr # rest) total_mask actual_height max_width =
     (case boolean_index char_arr total_mask of
        Inl e \<Rightarrow> (file, Some e)
      | Inr cropped \<Rightarrow>
          (case to_bitfield file cropped actual_height max_width of
             Inl e \<Rightarrow> (file, Some e)
           | Inr file' \<Rightarrow> write_letters file' rest total_mask actual_height max_width))"

text \<open>
  What a run of \<open>font_to_pixels\<close> leaves behind: the exception that ended it, if
  any; how many characters it rasterised; the lines it printed; and the output file,
  \<open>None\<close> as long as the run has not opened it (opening truncates it).
\<close>

record run =
  raised :: "py_error option"
  rasterized :: nat
  printed :: "string list"
  destination :: "string option"

definition font_to_pixels ::
  "'c font \<Rightarrow> 'c list \<Rightarrow> string \<Rightarrow> int \<Rightarrow> int \<Rightarrow> 'c list \<Rightarrow> int \<Rightarrow> run option" where
  "font_to_pixels font_path all_letters font_size_option letter_max_px_width
       str_max_px_width max_width_string input_font_size =
     (case resolve_font_size font_path all_letters font_size_option letter_max_px_width
             str_max_px_width max_width_string input_font_size of
        None \<Rightarrow> None
      | Some (Inl e) \<Rightarrow>
          Some \<lparr>raised = Some e, rasterized = 0, printed = [], destination = None\<rparr>
      | Some (Inr font_size) \<Rightarrow>
          Some (let font_inst = font_path font_size;
                    (max_width, max_height) = get_max_letter_dimensions all_letters font_inst;
                    glyphs = map (\<lambda>char. char_to_pixels [char] font_inst
                                            (nat max_width) (nat max_height)) all_letters;
                    letters = map fst glyphs;
                    masks = map snd glyphs
                in case determine_final_height masks of
                     Inl e \<Rightarrow>
                       \<lparr>raised = Some e, rasterized = length glyphs, printed = [],
                        destination = None\<rparr>
                   | Inr (total_mask, actual_height) \<Rightarrow>
                       (let line = ''Pixel size H x W: '' @ str (int actual_height) @ '' x ''
                                     @ str max_width
                        in case write_letters generate_header letters total_mask
                                  actual_height (nat max_width) of
                             (file, Some e) \<Rightarrow>
                               \<lparr>raised = Some e, rasterized = length glyphs, printed = [line],
                                destination = Some file\<rparr>
                           | (file, None) \<Rightarrow>
                               \<lparr>raised = None, rasterized = length glyphs, printed = [line],
                                destination =
                                  Some (file @ generate_footer max_width (int actual_height))\<rparr>)))"

subsection \<open>Reading a row back\<close>

text \<open>
  What the claims about the encoding are measured against, none of it in the script:
  the number that a row of bits denotes when its first bit is the most significant one;
  the number that a string of hexadecimal digits denotes; a list cut into pieces of two
  from the left, the last piece of one element when the length is odd; the bits of a
  number, most significant first, and the four bits of a hexadecimal digit.
\<close>

fun bits_value :: "bool list \<Rightarrow> nat" where
  "bits_value [] = 0"
| "bits_value (b # bs) = (if b then 2 ^ length bs else 0) + bits_value bs"

definition hex_digit_of :: "char \<Rightarrow> nat option" where
  "hex_digit_of c = List.find (\<lambda>d. digit_char d = c) [0..<16]"

definition char_value :: "char \<Rightarrow> nat" where
  "char_value c = (case hex_digit_of c of Some v \<Rightarrow> v | None \<Rightarrow> 0)"

definition hex_to_nat :: "string \<Rightarrow> nat" where
  "hex_to_nat digits = foldl (\<lambda>acc c. 16 * acc + char_value c) 0 digits"

fun chunk2 :: "'a list \<Rightarrow> 'a list list" where
  "chunk2 (a # b # rest) = [a, b] # chunk2 rest"
| "chunk2 [a] = [[a]]"
| "chunk2 [] = []"

fun nat_bits :: "nat \<Rightarrow> nat \<Rightarrow> bool list" where
  "nat_bits 0 m = []"
| "nat_bits (Suc k) m = nat_bits k (m div 2) @ [odd m]"

definition digit_bits :: "char \<Rightarrow> bool list" where
  "digit_bits c = (case hex_digit_of c of Some v \<Rightarrow> nat_bits 4 v | None \<Rightarrow> [])"

text \<open>
  \<open>s.split(', ')\<close>, and the reading of the literals of a line as the bytes of the
  \<open>uint8_t\<close> table they are written for: every literal is \<open>0x\<close> and one or two
  hexadecimal digits, it denotes one byte, and a byte is eight bits, most significant
  first. A string that is not made of such literals has no reading.
\<close>

fun split_comma :: "string \<Rightarrow> string list" where
  "split_comma [] = [[]]"
| "split_comma [c] = [[c]]"
| "split_comma (c # d # s) =
     (if c = CHR '','' \<and> d = CHR '' '' then [] # split_comma s
      else (case split_comma (d # s) of [] \<Rightarrow> [[c]] | l # ls \<Rightarrow> (c # l) # ls))"

definition literal_byte :: "string \<Rightarrow> nat option" where
  "literal_byte l =
     (let ds = drop 2 l
      in if take 2 l = ''0x'' \<and> ds \<noteq> [] \<and> length ds \<le> 2
            \<and> list_all (\<lambda>c. hex_digit_of c \<noteq> None) ds
         then Some (hex_to_nat ds) else None)"

definition decode_bytes :: "string \<Rightarrow> bool list option" where
  "decode_bytes s =
     (let bytes = map literal_byte (split_comma s)
      in if list_all (\<lambda>b. b \<noteq> None) bytes
         then Some (concat (map (\<lambda>b. case b of Some v \<Rightarrow> nat_bits 8 v | None \<Rightarrow> []) bytes))
         else None)"

definition bit_char :: "bool \<Rightarrow> char" where
  "bit_char b = (if b then CHR ''1'' else CHR ''0'')"

text \<open>
  Row \<open>i\<close> of an array as \<open>to_bitfield\<close> sees it on a canvas of \<open>max_width\<close>
  columns: the pixels of the row, with zeros for the columns (and the rows) that the
  array does not have.
\<close>

definition pixel_row :: "ndarray \<Rightarrow> nat \<Rightarrow> nat \<Rightarrow> int list" where
  "pixel_row arr max_width i =
     map (\<lambda>j. if i < shape0 arr \<and> j < shape1 arr then cells arr ! i ! j else 0) [0..<max_width]"

subsection \<open>The test of the mask loop\<close>

text \<open>
  The condition that the inner loop of \<open>determine_final_height\<close> tests at one index
  of a mask, as a predicate of its own.
\<close>

definition dilated :: "bool list \<Rightarrow> nat \<Rightarrow> bool" where
  "dilated glyph_mask index =
     (glyph_mask ! index \<or> glyph_mask ! nat (max (int index - 1) 0)
        \<or> glyph_mask ! nat (min (int index + 1) (int (length glyph_mask) - 1)))"

subsection \<open>Fonts, rows and arrays for the examples\<close>

text \<open>
  A font whose boxes grow with the size, 2 pixels wide and 2 high per unit, and one
  whose boxes are empty at every size; both leave every pixel of the canvas at 0. A font
  instance with a box of 2 by 7 pixels for the text 1 and of 5 by 5 for any other text.
  A row of 12 pixels, an array of two rows of 6 pixels, arrays of one row of 4, 8
  and 12 pixels, and an array of one row of no pixel.
\<close>

definition linear_font :: "char font" where
  "linear_font sz =
     \<lparr>getbbox = (\<lambda>text. (0, 0, 2 * sz, 2 * sz)), draw_text = (\<lambda>text y x. 0)\<rparr>"

definition flat_font :: "char font" where
  "flat_font sz = \<lparr>getbbox = (\<lambda>text. (0, 0, 0, 0)), draw_text = (\<lambda>text y x. 0)\<rparr>"

definition sample_inst :: "char font_inst" where
  "sample_inst =
     \<lparr>getbbox = (\<lambda>text. if text = ''1'' then (1, 2, 3, 9) else (0, 3, 5, 8)),
      draw_text = (\<lambda>text y x. 0)\<rparr>"

definition sample_row :: "int list" where
  "sample_row = [255, 0, 255, 0, 255, 0, 255, 255, 255, 255, 0, 0]"

definition sample_array :: ndarray where
  "sample_array = \<lparr>shape1 = 6, cells = [[255, 0, 255, 255, 0, 255], [0, 0, 0, 0, 0, 255]]\<rparr>"

definition row4_array :: ndarray where
  "row4_array = \<lparr>shape1 = 4, cells = [[255, 255, 255, 255]]\<rparr>"

definition row8_array :: ndarray where
  "row8_array = \<lparr>shape1 = 8, cells = [[255, 255, 255, 255, 0, 0, 0, 0]]\<rparr>"

definition row12_array :: ndarray where
  "row12_array = \<lparr>shape1 = 12, cells = [sample_row]\<rparr>"

definition no_column_array :: ndarray where
  "no_column_array = \<lparr>shape1 = 0, cells = [[]]\<rparr>"

section \<open>Properties\<close>

subsection \<open>The search loops\<close>

lemma width_loop_diverges:
  assumes "width_loop string font px_width max_width sz last_size = Some r"
  shows "\<not> (max_width < px_width \<and>
            (\<forall>s\<ge>sz. fst (get_letter_dimensions string (font s)) < px_width))"
proof (rule width_loop.raw_induct[where P = "\<lambda>string font px_width max_width sz last_size r.
    \<not> (max_width < px_width \<and>
       (\<forall>s\<ge>sz. fst (get_letter_dimensions string (font s)) < px_width))", OF _ assms])
  fix f :: "'a list \<Rightarrow> 'a font \<Rightarrow> int \<Rightarrow> int \<Rightarrow> int \<Rightarrow> int \<Rightarrow> (int \<times> int \<times> int) option"
  fix string font px_width max_width sz last_size r
  assume IH: "\<And>string font px_width max_width sz last_size r.
      f string font px_width max_width sz last_size = Some r \<Longrightarrow>
      \<not> (max_width < px_width \<and>
         (\<forall>s\<ge>sz. fst (get_letter_dimensions string (font s)) < px_width))"
  assume eq: "(if max_width < px_width
      then f string font px_width
            (fst (get_letter_dimensions string (font sz))) (sz + 1) sz
      else Some (max_width, sz, last_size)) = Some r"
  show "\<not> (max_width < px_width \<and>
          (\<forall>s\<ge>sz. fst (get_letter_dimensions string (font s)) < px_width))"
  proof
    assume a: "max_width < px_width \<and>
               (\<forall>s\<ge>sz. fst (get_letter_dimensions string (font s)) < px_width)"
    then have "f string font px_width
            (fst (get_letter_dimensions string (font sz))) (sz + 1) sz = Some r"
      using eq by simp
    from IH[OF this] a show False by auto
  qed
qed

lemma width_loop_step:
  "max_width < px_width \<Longrightarrow>
   width_loop string font px_width max_width sz last_size =
   width_loop string font px_width (fst (get_letter_dimensions string (font sz))) (sz + 1) sz"
  by (subst width_loop.simps) simp

lemma width_loop_stop:
  "\<not> max_width < px_width \<Longrightarrow>
   width_loop string font px_width max_width sz last_size = Some (max_width, sz, last_size)"
  by (subst width_loop.simps) simp

lemma width_loop_returns:
  assumes "sz \<le> k" and "px_width \<le> fst (get_letter_dimensions string (font k))"
  shows "\<exists>r. width_loop string font px_width max_width sz last_size = Some r"
  using assms
proof (induction "nat (k - sz)" arbitrary: sz max_width last_size)
  case 0
  then have k: "k = sz" by simp
  show ?case
  proof (cases "max_width < px_width")
    case False
    then show ?thesis by (simp add: width_loop_stop)
  next
    case True
    have "\<not> fst (get_letter_dimensions string (font sz)) < px_width"
      using 0(3) k by simp
    then show ?thesis using True by (simp add: width_loop_step width_loop_stop)
  qed
next
  case (Suc n)
  show ?case
  proof (cases "max_width < px_width")
    case False
    then show ?thesis by (simp add: width_loop_stop)
  next
    case True
    show ?thesis
    proof (cases "sz = k")
      case True
      then have "\<not> fst (get_letter_dimensions string (font sz)) < px_width"
        using Suc(4) by simp
      then show ?thesis using \<open>max_width < px_width\<close>
        by (simp add: width_loop_step width_loop_stop)
    next
      case False
      then have "n = nat (k - (sz + 1))" "sz + 1 \<le> k" using Suc(2,3) by linarith+
      from Suc(1)[OF this Suc(4)] show ?thesis
        using \<open>max_width < px_width\<close> by (simp add: width_loop_step)
    qed
  qed
qed

lemma height_loop_diverges:
  assumes "height_loop string font px_height max_height sz last_size = Some r"
  shows "\<not> (max_height < px_height \<and>
            (\<forall>s\<ge>sz. snd (get_letter_dimensions string (font s)) < px_height))"
proof (rule height_loop.raw_induct[where P = "\<lambda>string font px_height max_height sz last_size r.
    \<not> (max_height < px_height \<and>
       (\<forall>s\<ge>sz. snd (get_letter_dimensions string (font s)) < px_height))", OF _ assms])
  fix f :: "'a list \<Rightarrow> 'a font \<Rightarrow> int \<Rightarrow> int \<Rightarrow> int \<Rightarrow> int \<Rightarrow> (int \<times> int \<times> int) option"
  fix string font px_height max_height sz last_size r
  assume IH: "\<And>string font px_height max_height sz last_size r.
      f string font px_height max_height sz last_size = Some r \<Longrightarrow>
      \<not> (max_height < px_height \<and>
         (\<forall>s\<ge>sz. snd (get_letter_dimensions string (font s)) < px_height))"
  assume eq: "(if max_height < px_height
      then f string font px_height
            (snd (get_letter_dimensions string (font sz))) (sz + 1) sz
      else Some (max_height, sz, last_size)) = Some r"
  show "\<not> (max_height < px_height \<and>
          (\<forall>s\<ge>sz. snd (get_letter_dimensions string (font s)) < px_height))"
  proof
    assume a: "max_height < px_height \<and>
               (\<forall>s\<ge>sz. snd (get_letter_dimensions string (font s)) < px_height)"
    then have "f string font px_height
            (snd (get_letter_dimensions string (font sz))) (sz + 1) sz = Some r"
      using eq by simp
    from IH[OF this] a show False by auto
  qed
qed

lemma height_loop_step:
  "max_height < px_height \<Longrightarrow>
   height_loop string font px_height max_height sz last_size =
   height_loop string font px_height (snd (get_letter_dimensions string (font sz))) (sz + 1) sz"
  by (subst height_loop.simps) simp

lemma height_loop_stop:
  "\<not> max_height < px_height \<Longrightarrow>
   height_loop string font px_height max_height sz last_size = Some (max_height, sz, last_size)"
  by (subst height_loop.simps) simp

lemma height_loop_returns:
  assumes "sz \<le> k" and "px_height \<le> snd (get_letter_dimensions string (font k))"
  shows "\<exists>r. height_loop string font px_height max_height sz last_size = Some r"
  using assms
proof (induction "nat (k - sz)" arbitrary: sz max_height last_size)
  case 0
  then have k: "k = sz" by simp
  show ?case
  proof (cases "max_height < px_height")
    case False
    then show ?thesis by (simp add: height_loop_stop)
  next
    case True
    have "\<not> snd (get_letter_dimensions string (font sz)) < px_height"
      using 0(3) k by simp
    then show ?thesis using True by (simp add: height_loop_step height_loop_stop)
  qed
next
  case (Suc n)
  show ?case
  proof (cases "max_height < px_height")
    case False
    then show ?thesis by (simp add: height_loop_stop)
  next
    case True
    show ?thesis
    proof (cases "sz = k")
      case True
      then have "\<not> snd (get_letter_dimensions string (font sz)) < px_height"
        using Suc(4) by simp
      then show ?thesis using \<open>max_height < px_height\<close>
        by (simp add: height_loop_step height_loop_stop)
    next
      case False
      then have "n = nat (k - (sz + 1))" "sz + 1 \<le> k" using Suc(2,3) by linarith+
      from Suc(1)[OF this Suc(4)] show ?thesis
        using \<open>max_height < px_height\<close> by (simp add: height_loop_step)
    qed
  qed
qed

lemma width_search_returns_iff:
  "(\<exists>r. determine_font_size_by_max_width string font px_width = Some r) \<longleftrightarrow>
   (px_width \<le> 0 \<or> (\<exists>s\<ge>1. px_width \<le> fst (get_letter_dimensions string (font s))))"
proof
  assume "\<exists>r. determine_font_size_by_max_width string font px_width = Some r"
  then obtain st where st: "width_loop string font px_width 0 1 1 = Some st"
    by (auto simp: determine_font_size_by_max_width_def split: option.splits)
  from width_loop_diverges[OF st]
  show "px_width \<le> 0 \<or> (\<exists>s\<ge>1. px_width \<le> fst (get_letter_dimensions string (font s)))"
    by (meson not_le)
next
  assume r: "px_width \<le> 0 \<or> (\<exists>s\<ge>1. px_width \<le> fst (get_letter_dimensions string (font s)))"
  have "\<exists>st. width_loop string font px_width 0 1 1 = Some st"
  proof (cases "px_width \<le> 0")
    case True
    then show ?thesis by (simp add: width_loop_stop)
  next
    case False
    with r obtain s where "1 \<le> s" "px_width \<le> fst (get_letter_dimensions string (font s))"
      by blast
    then show ?thesis by (rule width_loop_returns)
  qed
  then show "\<exists>r. determine_font_size_by_max_width string font px_width = Some r"
    by (auto simp: determine_font_size_by_max_width_def split: option.splits prod.splits)
qed

lemma height_search_returns_iff:
  "(\<exists>r. determine_font_size_by_max_height string font px_height0 = Some r) \<longleftrightarrow>
   (px_height0 - 2 \<le> 0 \<or>
    (\<exists>s\<ge>1. px_height0 - 2 \<le> snd (get_letter_dimensions string (font s))))"
proof -
  define px_height where "px_height = px_height0 - 2"
  have "(\<exists>r. determine_font_size_by_max_height string font px_height0 = Some r) \<longleftrightarrow>
   (px_height \<le> 0 \<or> (\<exists>s\<ge>1. px_height \<le> snd (get_letter_dimensions string (font s))))"
  proof
    assume "\<exists>r. determine_font_size_by_max_height string font px_height0 = Some r"
    then obtain st where st: "height_loop string font px_height 0 1 1 = Some st"
      by (auto simp: determine_font_size_by_max_height_def px_height_def Let_def split: option.splits)
    from height_loop_diverges[OF st]
    show "px_height \<le> 0 \<or> (\<exists>s\<ge>1. px_height \<le> snd (get_letter_dimensions string (font s)))"
      by (meson not_le)
  next
    assume r: "px_height \<le> 0 \<or> (\<exists>s\<ge>1. px_height \<le> snd (get_letter_dimensions string (font s)))"
    have "\<exists>st. height_loop string font px_height 0 1 1 = Some st"
    proof (cases "px_height \<le> 0")
      case True
      then show ?thesis by (simp add: height_loop_stop)
    next
      case False
      with r obtain s where "1 \<le> s" "px_height \<le> snd (get_letter_dimensions string (font s))"
        by blast
      then show ?thesis by (rule height_loop_returns)
    qed
    then show "\<exists>r. determine_font_size_by_max_height string font px_height0 = Some r"
      by (auto simp: determine_font_size_by_max_height_def px_height_def Let_def split: option.splits prod.splits)
  qed
  then show ?thesis by (simp add: px_height_def)
qed

text \<open>
  What the search returns: when \<open>k\<close> is the first size that measures at least the
  limit, it is \<open>k\<close> if size \<open>k\<close> is over the limit and \<open>k + 1\<close> if size \<open>k\<close>
  meets it.
\<close>

lemma width_loop_first:
  assumes "max_width < px_width" and "sz \<le> k"
    and "px_width \<le> fst (get_letter_dimensions string (font k))"
    and "\<forall>s. sz \<le> s \<and> s < k \<longrightarrow> fst (get_letter_dimensions string (font s)) < px_width"
  shows "width_loop string font px_width max_width sz last_size
         = Some (fst (get_letter_dimensions string (font k)), k + 1, k)"
  using assms
proof (induction "nat (k - sz)" arbitrary: sz max_width last_size)
  case 0
  then have k: "sz = k" by simp
  have "\<not> fst (get_letter_dimensions string (font k)) < px_width" using 0(4) by simp
  then show ?case using 0(2) k by (simp add: width_loop_step width_loop_stop)
next
  case (Suc n)
  then have lt: "sz < k" by linarith
  then have small: "fst (get_letter_dimensions string (font sz)) < px_width"
    using Suc(6) by simp
  have "n = nat (k - (sz + 1))" "sz + 1 \<le> k" using Suc(2) lt by linarith+
  moreover have "\<forall>s. sz + 1 \<le> s \<and> s < k
      \<longrightarrow> fst (get_letter_dimensions string (font s)) < px_width"
    using Suc(6) by simp
  ultimately have "width_loop string font px_width
      (fst (get_letter_dimensions string (font sz))) (sz + 1) sz
      = Some (fst (get_letter_dimensions string (font k)), k + 1, k)"
    using Suc(1)[of "sz + 1" "fst (get_letter_dimensions string (font sz))" sz] small Suc(5)
    by blast
  then show ?case using Suc(3) by (simp add: width_loop_step)
qed

lemma width_search_result:
  assumes "0 < px_width" and "1 \<le> k"
    and "px_width \<le> fst (get_letter_dimensions string (font k))"
    and "\<forall>s. 1 \<le> s \<and> s < k \<longrightarrow> fst (get_letter_dimensions string (font s)) < px_width"
  shows "determine_font_size_by_max_width string font px_width
         = Some (if px_width < fst (get_letter_dimensions string (font k)) then k else k + 1)"
  using width_loop_first[OF assms(1,2,3,4), of 1]
  by (simp add: determine_font_size_by_max_width_def)

lemma height_loop_first:
  assumes "max_height < px_height" and "sz \<le> k"
    and "px_height \<le> snd (get_letter_dimensions string (font k))"
    and "\<forall>s. sz \<le> s \<and> s < k \<longrightarrow> snd (get_letter_dimensions string (font s)) < px_height"
  shows "height_loop string font px_height max_height sz last_size
         = Some (snd (get_letter_dimensions string (font k)), k + 1, k)"
  using assms
proof (induction "nat (k - sz)" arbitrary: sz max_height last_size)
  case 0
  then have k: "sz = k" by simp
  have "\<not> snd (get_letter_dimensions string (font k)) < px_height" using 0(4) by simp
  then show ?case using 0(2) k by (simp add: height_loop_step height_loop_stop)
next
  case (Suc n)
  then have lt: "sz < k" by linarith
  then have small: "snd (get_letter_dimensions string (font sz)) < px_height"
    using Suc(6) by simp
  have "n = nat (k - (sz + 1))" "sz + 1 \<le> k" using Suc(2) lt by linarith+
  moreover have "\<forall>s. sz + 1 \<le> s \<and> s < k
      \<longrightarrow> snd (get_letter_dimensions string (font s)) < px_height"
    using Suc(6) by simp
  ultimately have "height_loop string font px_height
      (snd (get_letter_dimensions string (font sz))) (sz + 1) sz
      = Some (snd (get_letter_dimensions string (font k)), k + 1, k)"
    using Suc(1)[of "sz + 1" "snd (get_letter_dimensions string (font sz))" sz] small Suc(5)
    by blast
  then show ?case using Suc(3) by (simp add: height_loop_step)
qed

lemma height_search_result:
  assumes "0 < px_height - 2" and "1 \<le> k"
    and "px_height - 2 \<le> snd (get_letter_dimensions string (font k))"
    and "\<forall>s. 1 \<le> s \<and> s < k
           \<longrightarrow> snd (get_letter_dimensions string (font s)) < px_height - 2"
  shows "determine_font_size_by_max_height string font px_height
         = Some (if px_height - 2 < snd (get_letter_dimensions string (font k))
                 then k else k + 1)"
  using height_loop_first[OF assms(1,2,3,4), of 1]
  by (simp add: determine_font_size_by_max_height_def Let_def)

subsection \<open>Claims about the search\<close>

text \<open>
  C1. The claim: with metrics that do not decrease in the size, the search returns the
  largest size whose measure is within the limit (the height limit less 2), one less
  than the first size over it. The script's comments say the same (the maximum size
  whose pixels keep to the limit). The loop sets \<open>last_size\<close> to the size it has just
  measured, so it returns the first size over the limit; and when a size meets the limit
  exactly it returns the next size. On the font that measures 2 pixels per unit:
  limit 5, sizes 2 and 3 measure 4 and 6, the search returns 3; limit 4, the search
  returns 3 again; the same for the height with limits 7 and 6.
\<close>

theorem search_returns_size_over_limit:
  "determine_font_size_by_max_width ''23'' linear_font 5 = Some 3
   \<and> fst (get_letter_dimensions ''23'' (linear_font 2)) = 4
   \<and> fst (get_letter_dimensions ''23'' (linear_font 3)) = 6
   \<and> determine_font_size_by_max_width ''23'' linear_font 4 = Some 3
   \<and> determine_font_size_by_max_height ''23'' linear_font 7 = Some 3
   \<and> snd (get_letter_dimensions ''23'' (linear_font 2)) = 4
   \<and> snd (get_letter_dimensions ''23'' (linear_font 3)) = 6
   \<and> determine_font_size_by_max_height ''23'' linear_font 6 = Some 3"
  by code_simp

text \<open>
  C7, as stated: the search has an upper bound on the sizes it tries and ends for every
  metrics function. It has none: on a font engine that answers at every size with an
  empty box the search for a limit of 1 pixel (3 for the height) never returns.
\<close>

theorem search_without_bound_counterexample:
  "determine_font_size_by_max_width ''23'' flat_font 1 = None
   \<and> determine_font_size_by_max_height ''23'' flat_font 3 = None"
proof -
  have "\<not> (\<exists>r. determine_font_size_by_max_width ''23'' flat_font 1 = Some r)"
    unfolding width_search_returns_iff
    by (simp add: flat_font_def get_letter_dimensions_def)
  moreover have "\<not> (\<exists>r. determine_font_size_by_max_height ''23'' flat_font 3 = Some r)"
    unfolding height_search_returns_iff
    by (simp add: flat_font_def get_letter_dimensions_def)
  ultimately show ?thesis by simp
qed

text \<open>
  C7, amended: with a font engine that answers at every size, the search has no bound
  on the sizes it tries and raises nothing. It returns exactly when the limit (for the
  height, the limit less 2) is not positive or some size from 1 on measures at least
  the limit; otherwise it runs forever.
\<close>

theorem search_returns_iff_limit_reached:
  "((\<exists>r. determine_font_size_by_max_width string font px_width = Some r) \<longleftrightarrow>
      (px_width \<le> 0 \<or> (\<exists>s\<ge>1. px_width \<le> fst (get_letter_dimensions string (font s)))))
   \<and> ((\<exists>r. determine_font_size_by_max_height string font px_height = Some r) \<longleftrightarrow>
      (px_height - 2 \<le> 0 \<or>
       (\<exists>s\<ge>1. px_height - 2 \<le> snd (get_letter_dimensions string (font s)))))"
  using width_search_returns_iff height_search_returns_iff by blast

theorem search_returns_iff_limit_reached_witness:
  "(\<exists>r. determine_font_size_by_max_width ''23'' linear_font 5 = Some r)
   \<and> (\<exists>r. determine_font_size_by_max_height ''23'' linear_font 7 = Some r)
   \<and> \<not> (\<exists>r. determine_font_size_by_max_width ''23'' flat_font 1 = Some r)
   \<and> \<not> (\<exists>r. determine_font_size_by_max_height ''23'' flat_font 3 = Some r)"
proof -
  have w: "\<exists>s\<ge>1. (5::int) \<le> fst (get_letter_dimensions ''23'' (linear_font s))"
    by (rule exI[of _ 3]) (simp add: linear_font_def get_letter_dimensions_def)
  have h: "\<exists>s\<ge>1. (7::int) - 2 \<le> snd (get_letter_dimensions ''23'' (linear_font s))"
    by (rule exI[of _ 3]) (simp add: linear_font_def get_letter_dimensions_def)
  have fw: "\<not> ((1::int) \<le> 0 \<or> (\<exists>s\<ge>1. 1 \<le> fst (get_letter_dimensions ''23'' (flat_font s))))"
    by (simp add: flat_font_def get_letter_dimensions_def)
  have fh: "\<not> ((3::int) - 2 \<le> 0 \<or> (\<exists>s\<ge>1. 3 - 2 \<le> snd (get_letter_dimensions ''23'' (flat_font s))))"
    by (simp add: flat_font_def get_letter_dimensions_def)
  show ?thesis
    using w h fw fh
      search_returns_iff_limit_reached[of "''23''" linear_font 5 7]
      search_returns_iff_limit_reached[of "''23''" flat_font 1 3]
    by blast
qed

text \<open>
  C5. In the mode \<open>max_px_both\<close> the font size is the smaller of the size that the
  height search returns and the size that the width search returns. On the font that
  measures 2 pixels per unit the limits 25 and 17 give 12 and 9, and the size is 9.
\<close>

theorem both_limits_take_minimum:
  assumes "determine_font_size_by_max_height all_letters font_path letter_max_px_width
             = Some size_by_height"
    and "determine_font_size_by_max_width max_width_string font_path str_max_px_width
             = Some size_by_width"
  shows "resolve_font_size font_path all_letters ''max_px_both'' letter_max_px_width
           str_max_px_width max_width_string input_font_size
         = Some (Inr (min size_by_height size_by_width))"
  using assms by (simp add: resolve_font_size_def)

theorem both_limits_take_minimum_witness:
  "determine_font_size_by_max_height ''0123'' linear_font 25 = Some 12
   \<and> determine_font_size_by_max_width ''23'' linear_font 17 = Some 9
   \<and> resolve_font_size linear_font ''0123'' ''max_px_both'' 25 17 ''23'' 60 = Some (Inr 9)"
proof -
  have h: "determine_font_size_by_max_height ''0123'' linear_font 25 = Some 12"
    by code_simp
  have w: "determine_font_size_by_max_width ''23'' linear_font 17 = Some 9"
    by code_simp
  show ?thesis
    using h w both_limits_take_minimum[OF h w, of 60] by simp
qed

subsection \<open>The shared row mask\<close>

lemma mask_rows_in_range:
  assumes "\<forall>i\<in>set indices. i < length total_mask"
  shows "\<exists>t. mask_rows glyph_mask indices total_mask = Inr t \<and> length t = length total_mask
           \<and> (\<forall>j<length total_mask.
                 t ! j = (total_mask ! j \<or> (j \<in> set indices \<and> dilated glyph_mask j)))"
  using assms
proof (induction indices arbitrary: total_mask)
  case Nil
  then show ?case by simp
next
  case (Cons index rest)
  show ?case
  proof (cases "dilated glyph_mask index")
    case False
    from Cons.IH[of total_mask] Cons.prems
    obtain t where t: "mask_rows glyph_mask rest total_mask = Inr t"
      "length t = length total_mask"
      "\<forall>j<length total_mask. t ! j = (total_mask ! j \<or> (j \<in> set rest \<and> dilated glyph_mask j))"
      by auto
    have "mask_rows glyph_mask (index # rest) total_mask = Inr t"
      using False t(1) by (simp add: dilated_def)
    moreover have "\<forall>j<length total_mask.
        t ! j = (total_mask ! j \<or> (j \<in> set (index # rest) \<and> dilated glyph_mask j))"
      using t(3) False by auto
    ultimately show ?thesis using t(2) by blast
  next
    case True
    have idx: "index < length total_mask" using Cons.prems by simp
    have "\<forall>i\<in>set rest. i < length (total_mask[index := True])" using Cons.prems by simp
    from Cons.IH[OF this]
    obtain t where t: "mask_rows glyph_mask rest (total_mask[index := True]) = Inr t"
      "length t = length total_mask"
      "\<forall>j<length total_mask. t ! j = ((total_mask[index := True]) ! j
          \<or> (j \<in> set rest \<and> dilated glyph_mask j))"
      by auto
    have "mask_rows glyph_mask (index # rest) total_mask = Inr t"
      using True t(1) idx by (simp add: dilated_def)
    moreover have "\<forall>j<length total_mask.
        t ! j = (total_mask ! j \<or> (j \<in> set (index # rest) \<and> dilated glyph_mask j))"
      using t(3) True idx by (auto simp: nth_list_update)
    ultimately show ?thesis using t(2) by blast
  qed
qed

lemma all_masks_equal_lengths:
  assumes "\<forall>m\<in>set masks. length m = length total_mask"
  shows "\<exists>t. all_masks masks total_mask = Inr t \<and> length t = length total_mask
           \<and> (\<forall>j<length total_mask.
                 t ! j = (total_mask ! j \<or> (\<exists>m\<in>set masks. dilated m j)))"
  using assms
proof (induction masks arbitrary: total_mask)
  case Nil
  then show ?case by simp
next
  case (Cons glyph_mask rest)
  have "\<forall>i\<in>set [0..<length glyph_mask]. i < length total_mask"
    using Cons.prems by simp
  from mask_rows_in_range[OF this, of glyph_mask]
  obtain t1 where t1: "mask_rows glyph_mask [0..<length glyph_mask] total_mask = Inr t1"
    "length t1 = length total_mask"
    "\<forall>j<length total_mask. t1 ! j = (total_mask ! j
        \<or> (j \<in> set [0..<length glyph_mask] \<and> dilated glyph_mask j))"
    by blast
  have "\<forall>m\<in>set rest. length m = length t1" using Cons.prems t1(2) by simp
  from Cons.IH[OF this]
  obtain t where t: "all_masks rest t1 = Inr t" "length t = length t1"
    "\<forall>j<length t1. t ! j = (t1 ! j \<or> (\<exists>m\<in>set rest. dilated m j))"
    by blast
  have "all_masks (glyph_mask # rest) total_mask = Inr t"
    using t1(1) t(1) by simp
  moreover have "\<forall>j<length total_mask.
      t ! j = (total_mask ! j \<or> (\<exists>m\<in>set (glyph_mask # rest). dilated m j))"
    using t(3) t1(2,3) Cons.prems by auto
  ultimately show ?case using t(2) t1(2) by auto
qed

lemma determine_final_height_equal_lengths:
  assumes "masks \<noteq> []" and "\<forall>m\<in>set masks. length m = n"
  shows "\<exists>t. determine_final_height masks = Inr (t, count_list t True) \<and> length t = n
           \<and> (\<forall>j<n. t ! j = (\<exists>m\<in>set masks. dilated m j))"
proof -
  have n: "length (last masks) = n" using assms by simp
  have "\<forall>m\<in>set masks. length m = length (replicate n False)" using assms(2) by simp
  from all_masks_equal_lengths[OF this]
  obtain t where "all_masks masks (replicate n False) = Inr t" "length t = n"
    "\<forall>j<n. t ! j = (\<exists>m\<in>set masks. dilated m j)"
    by auto
  then show ?thesis using assms(1) n by (auto simp: determine_final_height_def)
qed

lemma count_list_True_card:
  "count_list t True = card {i. i < length t \<and> t ! i}"
proof -
  have "count_list t True = length (filter (\<lambda>b. b) t)"
    by (induction t) auto
  then show ?thesis by (simp add: length_filter_conv_card)
qed

lemma dilated_neighbours:
  assumes "i < length m" and "m ! i"
  shows "dilated m (nat (max (int i - 1) 0))" and "dilated m i"
    and "dilated m (nat (min (int i + 1) (int (length m) - 1)))"
proof -
  show "dilated m i" using assms by (simp add: dilated_def)
  then show "dilated m (nat (max (int i - 1) 0))"
  proof (cases "i = 0")
    case True
    then show ?thesis using \<open>dilated m i\<close> by simp
  next
    case False
    then have a: "nat (max (int i - 1) 0) = i - 1" by simp
    have "nat (min (int (i - 1) + 1) (int (length m) - 1)) = i"
      using False assms(1) by simp
    then show ?thesis using assms(2) unfolding a dilated_def by simp
  qed
  have "dilated m i" using assms by (simp add: dilated_def)
  then show "dilated m (nat (min (int i + 1) (int (length m) - 1)))"
  proof (cases "i + 1 = length m")
    case True
    then have a: "nat (min (int i + 1) (int (length m) - 1)) = i" by auto
    show ?thesis unfolding a by (rule \<open>dilated m i\<close>)
  next
    case False
    then have a: "nat (min (int i + 1) (int (length m) - 1)) = i + 1"
      using assms(1) by auto
    have "nat (max (int (i + 1) - 1) 0) = i" by simp
    then show ?thesis using assms(2) unfolding a dilated_def by simp
  qed
qed

text \<open>
  C2. For masks of one length \<open>n\<close>: \<open>determine_final_height\<close> raises only on the
  empty list; otherwise it returns a mask of length \<open>n\<close> that is true at every row
  that is true in some glyph's mask, at the row before it and at the row after it (both
  kept within 0 and \<open>n - 1\<close>), and the height it returns is the number of true rows of
  that mask.
\<close>

theorem shared_mask_dilation:
  assumes "\<forall>m\<in>set masks. length m = n"
  shows "case determine_final_height masks of
           Inl e \<Rightarrow> masks = []
         | Inr (total_mask, actual_height) \<Rightarrow>
             masks \<noteq> [] \<and> length total_mask = n
             \<and> actual_height = card {i. i < n \<and> total_mask ! i}
             \<and> (\<forall>m\<in>set masks. \<forall>i<n. m ! i \<longrightarrow>
                   total_mask ! nat (max (int i - 1) 0) \<and> total_mask ! i
                   \<and> total_mask ! nat (min (int i + 1) (int n - 1)))"
proof (cases "masks = []")
  case True
  then show ?thesis by (simp add: determine_final_height_def)
next
  case False
  from determine_final_height_equal_lengths[OF False assms]
  obtain t where t: "determine_final_height masks = Inr (t, count_list t True)" "length t = n"
    "\<forall>j<n. t ! j = (\<exists>m\<in>set masks. dilated m j)"
    by blast
  have "t ! nat (max (int i - 1) 0) \<and> t ! i \<and> t ! nat (min (int i + 1) (int n - 1))"
    if "m \<in> set masks" "i < n" "m ! i" for m i
  proof -
    have len: "length m = n" using that(1) assms by simp
    have i: "i < length m" using that(2) len by simp
    have r: "nat (max (int i - 1) 0) < n" "nat (min (int i + 1) (int n - 1)) < n"
      using that(2) by auto
    from dilated_neighbours[OF i that(3)] that(1) t(3) r that(2) len
    show ?thesis by blast
  qed
  then show ?thesis using t(1,2) False by (simp add: count_list_True_card)
qed

theorem shared_mask_dilation_witness:
  "length [False, False, False] = 3 \<and> length [False, True, False] = 3
   \<and> determine_final_height [[False, False, False], [False, True, False]]
       = Inr ([True, True, True], 3)"
proof -
  have h: "\<forall>m\<in>set [[False, False, False], [False, True, False]]. length m = 3"
    by simp
  have e: "determine_final_height [[False, False, False], [False, True, False]]
       = Inr ([True, True, True], 3)"
    by code_simp
  show ?thesis using h e shared_mask_dilation[OF h] by simp
qed

text \<open>
  C6. For a non-empty list of masks of length \<open>max_height\<close> the height returned is at
  most \<open>max_height\<close>, and it is positive when some mask has a true row.
\<close>

theorem actual_height_bounds:
  assumes "masks \<noteq> []" and "\<forall>m\<in>set masks. length m = max_height"
  shows "\<exists>total_mask actual_height.
           determine_final_height masks = Inr (total_mask, actual_height)
           \<and> actual_height \<le> max_height
           \<and> ((\<exists>m\<in>set masks. True \<in> set m) \<longrightarrow> 0 < actual_height)"
proof -
  from determine_final_height_equal_lengths[OF assms]
  obtain t where t: "determine_final_height masks = Inr (t, count_list t True)"
    "length t = max_height" "\<forall>j<max_height. t ! j = (\<exists>m\<in>set masks. dilated m j)"
    by blast
  have le: "count_list t True \<le> max_height"
    using count_le_length[of t True] t(2) by simp
  have pos: "0 < count_list t True" if "\<exists>m\<in>set masks. True \<in> set m"
  proof -
    from that obtain m i where m: "m \<in> set masks" "i < length m" "m ! i"
      by (auto simp: in_set_conv_nth)
    then have "i < max_height" using assms(2) by auto
    moreover have "dilated m i" using m by (simp add: dilated_def)
    ultimately have "t ! i" using t(3) m(1) by blast
    then have "True \<in> set t" using \<open>i < max_height\<close> t(2) by (metis nth_mem)
    then show ?thesis by (metis count_list_0_iff gr0I)
  qed
  show ?thesis using t(1) le pos by blast
qed

theorem actual_height_bounds_witness:
  "[[False, False, False, False], [False, False, False, True]] \<noteq> []
   \<and> length [False, False, False, False] = 4 \<and> length [False, False, False, True] = 4
   \<and> (\<exists>total_mask actual_height.
         determine_final_height [[False, False, False, False], [False, False, False, True]]
           = Inr (total_mask, actual_height)
         \<and> actual_height \<le> 4 \<and> 0 < actual_height)"
proof -
  have h: "\<forall>m\<in>set [[False, False, False, False], [False, False, False, True]]. length m = 4"
    by simp
  have n: "[[False, False, False, False], [False, False, False, True]] \<noteq> []"
    by simp
  have i: "\<exists>m\<in>set [[False, False, False, False], [False, False, False, True]]. True \<in> set m"
    by simp
  from actual_height_bounds[OF n h] i
  have "\<exists>total_mask actual_height.
         determine_final_height [[False, False, False, False], [False, False, False, True]]
           = Inr (total_mask, actual_height)
         \<and> actual_height \<le> 4 \<and> 0 < actual_height"
    by blast
  then show ?thesis by simp
qed

subsection \<open>The canvas\<close>

lemma max_dimensions_foldl:
  "foldl (\<lambda>(max_width, max_height) char.
            (case get_letter_dimensions [char] font_inst of
               (char_width, char_height) \<Rightarrow>
                 (max char_width max_width, max char_height max_height)))
         (w0, h0) base_string
   = (Max (insert w0 ((\<lambda>c. fst (get_letter_dimensions [c] font_inst)) ` set base_string)),
      Max (insert h0 ((\<lambda>c. snd (get_letter_dimensions [c] font_inst)) ` set base_string)))"
proof (induction base_string arbitrary: w0 h0)
  case Nil
  then show ?case by simp
next
  case (Cons c cs)
  let ?W = "(\<lambda>c. fst (get_letter_dimensions [c] font_inst)) ` set cs"
  let ?H = "(\<lambda>c. snd (get_letter_dimensions [c] font_inst)) ` set cs"
  obtain cw ch where d: "get_letter_dimensions [c] font_inst = (cw, ch)"
    by (cases "get_letter_dimensions [c] font_inst")
  have w: "Max (insert (max cw w0) ?W) = Max (insert w0 (insert cw ?W))"
    by (cases "?W = {}") (simp_all add: max.commute max.left_commute max.assoc)
  have h: "Max (insert (max ch h0) ?H) = Max (insert h0 (insert ch ?H))"
    by (cases "?H = {}") (simp_all add: max.commute max.left_commute max.assoc)
  show ?case using Cons.IH[of "max cw w0" "max ch h0"] d w h by simp
qed

lemma get_max_letter_dimensions_nonneg:
  "0 \<le> fst (get_max_letter_dimensions base_string font_inst)"
  "0 \<le> snd (get_max_letter_dimensions base_string font_inst)"
  by (simp_all add: get_max_letter_dimensions_def max_dimensions_foldl Max_ge_iff)

text \<open>
  C8. When no box has a negative width or height, the canvas of a non-empty alphabet is
  as wide as the widest box of its characters and twice as high as the highest; for the
  empty alphabet it is 0 by 0.
\<close>

theorem canvas_is_maximum_box:
  assumes "\<forall>c\<in>set base_string. 0 \<le> fst (get_letter_dimensions [c] font_inst)
                                  \<and> 0 \<le> snd (get_letter_dimensions [c] font_inst)"
  shows "get_max_letter_dimensions base_string font_inst =
           (if base_string = [] then (0, 0)
            else (Max ((\<lambda>c. fst (get_letter_dimensions [c] font_inst)) ` set base_string),
                  2 * Max ((\<lambda>c. snd (get_letter_dimensions [c] font_inst)) ` set base_string)))"
proof (cases "base_string = []")
  case True
  then show ?thesis by (simp add: get_max_letter_dimensions_def)
next
  case False
  let ?W = "(\<lambda>c. fst (get_letter_dimensions [c] font_inst)) ` set base_string"
  let ?H = "(\<lambda>c. snd (get_letter_dimensions [c] font_inst)) ` set base_string"
  have ne: "?W \<noteq> {}" "?H \<noteq> {}" "finite ?W" "finite ?H" using False by auto
  obtain c0 where c0: "c0 \<in> set base_string" using False by (cases base_string) auto
  have "0 \<le> Max ?W" using ne assms c0 by (auto simp: Max_ge_iff)
  then have w: "Max (insert 0 ?W) = Max ?W" using ne by (simp add: max_def)
  have "0 \<le> Max ?H" using ne assms c0 by (auto simp: Max_ge_iff)
  then have h: "Max (insert 0 ?H) = Max ?H" using ne by (simp add: max_def)
  show ?thesis using False w h
    by (simp add: get_max_letter_dimensions_def max_dimensions_foldl)
qed

theorem canvas_is_maximum_box_witness:
  "get_letter_dimensions ''0'' sample_inst = (5, 5)
   \<and> get_letter_dimensions ''1'' sample_inst = (2, 7)
   \<and> get_max_letter_dimensions ''01'' sample_inst = (5, 14)"
proof -
  have h: "\<forall>c\<in>set ''01''. 0 \<le> fst (get_letter_dimensions [c] sample_inst)
                     \<and> 0 \<le> snd (get_letter_dimensions [c] sample_inst)"
    by (simp add: sample_inst_def get_letter_dimensions_def)
  show ?thesis using h canvas_is_maximum_box[OF h]
    by (simp add: sample_inst_def get_letter_dimensions_def)
qed

subsection \<open>The digits of a row\<close>

lemma hex_digit_of_digit_char_all:
  "list_all (\<lambda>d. hex_digit_of (digit_char d) = Some d) [0..<16]"
  by code_simp

lemma hex_digit_of_digit_char: "d < 16 \<Longrightarrow> hex_digit_of (digit_char d) = Some d"
  using hex_digit_of_digit_char_all by (simp add: list_all_iff)

lemma hex_digit_of_Some: "hex_digit_of c = Some v \<Longrightarrow> v < 16 \<and> digit_char v = c"
  unfolding hex_digit_of_def by (auto simp: find_Some_iff)

lemma digit_char_not_x_all:
  "list_all (\<lambda>d. digit_char d \<noteq> CHR ''x'' \<and> digit_char d \<noteq> CHR '','' \<and> digit_char d \<noteq> CHR '' '') [0..<16]"
  by code_simp

lemma str_bits: "str 1 = ''1''" "str 0 = ''0''"
  by (simp_all add: str_def dec_digits.simps digit_char_def)

lemma row_string:
  "concat (map str (where_row row 1 0)) = map (\<lambda>v. bit_char (v \<noteq> 0)) row"
  by (induction row) (simp_all add: where_row_def str_bits bit_char_def)

lemma row_comment:
  "comment (where_row row OUTPUT_FILL OUTPUT_EMPTY) = map (\<lambda>v. bit_char (v \<noteq> 0)) row"
  by (induction row)
     (simp_all add: comment_def where_row_def OUTPUT_FILL_def OUTPUT_EMPTY_def bit_char_def)

lemma bits_value_snoc: "bits_value (bs @ [b]) = 2 * bits_value bs + (if b then 1 else 0)"
  by (induction bs) auto

lemma bits_value_less: "bits_value bs < 2 ^ length bs"
  by (induction bs) auto

lemma foldl_binary:
  "foldl (\<lambda>acc c. 2 * acc + (if c = CHR ''1'' then 1 else 0)) a (map bit_char bs)
   = a * 2 ^ length bs + int (bits_value bs)"
proof (induction bs arbitrary: a)
  case Nil
  then show ?case by simp
next
  case (Cons b bs)
  have "foldl (\<lambda>acc c. 2 * acc + (if c = CHR ''1'' then 1 else 0)) a (map bit_char (b # bs))
        = foldl (\<lambda>acc c. 2 * acc + (if c = CHR ''1'' then 1 else 0))
            (2 * a + (if b then 1 else 0)) (map bit_char bs)"
    by (simp add: bit_char_def)
  also have "\<dots> = (2 * a + (if b then 1 else 0)) * 2 ^ length bs + int (bits_value bs)"
    by (rule Cons.IH)
  also have "\<dots> = a * 2 ^ length (b # bs) + int (bits_value (b # bs))"
    by (simp add: algebra_simps)
  finally show ?case .
qed

lemma int_base2_bits:
  assumes "bs \<noteq> []"
  shows "int_base2 (map bit_char bs) = Inr (int (bits_value bs))"
proof -
  have "\<not> list_ex (\<lambda>c. c \<noteq> CHR ''0'' \<and> c \<noteq> CHR ''1'') (map bit_char bs)"
    by (induction bs) (auto simp: bit_char_def)
  then show ?thesis using assms foldl_binary[of 0 bs]
    by (simp add: int_base2_def)
qed

lemma hex_value_row:
  assumes "row \<noteq> []"
  shows "hex_value width (where_row row 1 0)
         = Inr (hex_with_padding (int (bits_value (map (\<lambda>v. v \<noteq> 0) row))) width)"
proof -
  have "concat (map str (where_row row 1 0)) = map bit_char (map (\<lambda>v. v \<noteq> 0) row)"
    by (simp add: row_string)
  then show ?thesis using assms int_base2_bits[of "map (\<lambda>v. v \<noteq> 0) row"]
    by (simp add: hex_value_def)
qed

lemma hex_value_empty: "hex_value width (where_row [] 1 0) = Inl ValueError"
  by (simp add: hex_value_def where_row_def int_base2_def)

lemma char_value_digit_char: "d < 16 \<Longrightarrow> char_value (digit_char d) = d"
  by (simp add: char_value_def hex_digit_of_digit_char)

lemma hex_to_nat_snoc: "hex_to_nat (ds @ [c]) = 16 * hex_to_nat ds + char_value c"
  by (simp add: hex_to_nat_def)

lemma hex_to_nat_hex_digits: "hex_to_nat (hex_digits m) = m"
proof (induction m rule: hex_digits.induct)
  case (1 n)
  show ?case
  proof (cases "n < 16")
    case True
    then show ?thesis
      by (subst hex_digits.simps) (simp add: hex_to_nat_def char_value_digit_char)
  next
    case False
    then have "hex_to_nat (hex_digits n) = 16 * (n div 16) + n mod 16"
      using 1 by (subst hex_digits.simps) (simp add: hex_to_nat_snoc char_value_digit_char)
    then show ?thesis by simp
  qed
qed

lemma hex_digits_chars: "c \<in> set (hex_digits m) \<Longrightarrow> \<exists>d<16. c = digit_char d"
proof (induction m rule: hex_digits.induct)
  case (1 n)
  show ?case
  proof (cases "n < 16")
    case True
    then show ?thesis using 1(2) by (subst (asm) hex_digits.simps) auto
  next
    case False
    from 1(2) have "c \<in> set (hex_digits (n div 16)) \<or> c = digit_char (n mod 16)"
      using False by (subst (asm) hex_digits.simps) auto
    then show ?thesis
    proof
      assume "c \<in> set (hex_digits (n div 16))"
      then show ?thesis using 1(1) False by simp
    next
      assume "c = digit_char (n mod 16)"
      moreover have "n mod 16 < 16" by simp
      ultimately show ?thesis by blast
    qed
  qed
qed

lemma hex_digits_length: "0 < k \<Longrightarrow> m < 16 ^ k \<Longrightarrow> length (hex_digits m) \<le> k"
proof (induction m arbitrary: k rule: hex_digits.induct)
  case (1 n)
  show ?case
  proof (cases "n < 16")
    case True
    then show ?thesis using 1(2) by (subst hex_digits.simps) simp
  next
    case False
    obtain j where j: "k = Suc j" using 1(2) by (cases k) auto
    have "0 < j" using False 1(3) j by (cases j) auto
    note k = j this
    have "n div 16 < 16 ^ j" using 1(3) k by (simp add: less_mult_imp_div_less mult.commute)
    from 1(1)[OF False k(2) this] show ?thesis
      using False k by (subst hex_digits.simps) simp
  qed
qed

lemma hex_digits_last: "last (hex_digits m) = digit_char (m mod 16)"
  by (subst hex_digits.simps) simp

lemma hex_digits_nonempty: "hex_digits m \<noteq> []"
  by (subst hex_digits.simps) simp

lemma hex_to_nat_zeros: "hex_to_nat (replicate k (CHR ''0'') @ ds) = hex_to_nat ds"
proof -
  have z: "char_value (CHR ''0'') = 0"
    using char_value_digit_char[of 0] by (simp add: digit_char_def)
  have "foldl (\<lambda>acc c. 16 * acc + char_value c) 0 (replicate k (CHR ''0'')) = 0"
    by (induction k) (simp_all add: z)
  then show ?thesis by (simp add: hex_to_nat_def)
qed

lemma format_hex_nat:
  "format_hex (int m) width = replicate (width - length (hex_digits m)) (CHR ''0'') @ hex_digits m"
  by (simp add: format_hex_def zero_fill_def)

lemma format_hex_length:
  assumes "0 < width" and "m < 16 ^ width"
  shows "length (format_hex (int m) width) = width"
  using hex_digits_length[OF assms] by (simp add: format_hex_nat)

lemma format_hex_value: "hex_to_nat (format_hex (int m) width) = m"
  by (simp add: format_hex_nat hex_to_nat_zeros hex_to_nat_hex_digits)

lemma format_hex_chars:
  assumes "c \<in> set (format_hex (int m) width)"
  shows "\<exists>d<16. c = digit_char d"
proof -
  from assms have "c = CHR ''0'' \<or> c \<in> set (hex_digits m)"
    by (auto simp: format_hex_nat)
  then show ?thesis
  proof
    assume "c = CHR ''0''"
    then have "c = digit_char 0" by (simp add: digit_char_def)
    then show ?thesis by (intro exI[of _ 0]) simp
  next
    assume "c \<in> set (hex_digits m)"
    then show ?thesis by (rule hex_digits_chars)
  qed
qed

lemma format_hex_last: "last (format_hex (int m) width) = digit_char (m mod 16)"
  by (simp add: format_hex_nat hex_digits_nonempty hex_digits_last)

lemma pairs_chunk2:
  "map (\<lambda>i. ''0x'' @ take 2 (drop i hs)) (map (\<lambda>k. 2 * k) [0..<(length hs + 1) div 2])
   = map (\<lambda>g. ''0x'' @ g) (chunk2 hs)"
proof (induction hs rule: chunk2.induct)
  case (1 a b rest)
  have up: "[0..<Suc ((length rest + 1) div 2)] = 0 # map Suc [0..<(length rest + 1) div 2]"
    by (simp add: upt_conv_Cons map_Suc_upt del: upt_Suc)
  have len: "(length (a # b # rest) + 1) div 2 = Suc ((length rest + 1) div 2)"
    by simp
  show ?case
    unfolding len up using 1 by (simp add: comp_def)
next
  case (2 a)
  then show ?case by simp
next
  case 3
  then show ?case by simp
qed

lemma hex_with_padding_chunk2:
  "hex_with_padding num width = join '', '' (map (\<lambda>g. ''0x'' @ g) (chunk2 (format_hex num width)))"
  by (simp only: hex_with_padding_def Let_def pairs_chunk2)

lemma concat_chunk2: "concat (chunk2 xs) = xs"
  by (induction xs rule: chunk2.induct) simp_all

lemma length_chunk2: "length (chunk2 xs) = (length xs + 1) div 2"
  by (induction xs rule: chunk2.induct) simp_all

lemma length_nat_bits: "length (nat_bits k m) = k"
  by (induction k arbitrary: m) simp_all

lemma nat_bits_zero: "nat_bits k 0 = replicate k False"
  by (induction k) (simp_all add: replicate_append_same)

lemma nat_bits_add: "nat_bits (j + i) m = nat_bits j (m div 2 ^ i) @ nat_bits i m"
proof (induction i arbitrary: m)
  case 0
  then show ?case by simp
next
  case (Suc i)
  have "m div 2 div 2 ^ i = m div 2 ^ Suc i"
    by (simp add: div_mult2_eq)
  then show ?case using Suc[of "m div 2"] by simp
qed

lemma nat_bits_small:
  assumes "m < 2 ^ w"
  shows "nat_bits (p + w) m = replicate p False @ nat_bits w m"
  using assms by (simp add: nat_bits_add nat_bits_zero)

lemma nat_bits_bits_value: "nat_bits (length bs) (bits_value bs) = bs"
proof (induction bs rule: rev_induct)
  case Nil
  then show ?case by simp
next
  case (snoc b bs)
  then show ?case by (simp add: bits_value_snoc)
qed

lemma nat_bits_high: "nat_bits k (2 ^ k * a + d) = nat_bits k d"
proof (induction k arbitrary: a d)
  case 0
  then show ?case by simp
next
  case (Suc k)
  have "(2 ^ Suc k * a + d) div 2 = 2 ^ k * a + d div 2" by simp
  then show ?case using Suc[of a "d div 2"] by simp
qed

lemma nat_bits_mod16: "nat_bits 4 (16 * a + d) = nat_bits 4 d"
  using nat_bits_high[of 4 a d] by simp

lemma digits_bits:
  assumes "\<forall>c\<in>set ds. \<exists>d<16. c = digit_char d"
  shows "concat (map digit_bits ds) = nat_bits (4 * length ds) (hex_to_nat ds)"
  using assms
proof (induction ds rule: rev_induct)
  case Nil
  then show ?case by (simp add: hex_to_nat_def)
next
  case (snoc c ds)
  then obtain d where d: "d < 16" "c = digit_char d" by auto
  have db: "digit_bits c = nat_bits 4 d"
    using d by (simp add: digit_bits_def hex_digit_of_digit_char)
  have v: "hex_to_nat (ds @ [c]) = 16 * hex_to_nat ds + d"
    using d by (simp add: hex_to_nat_snoc char_value_digit_char)
  have "nat_bits (4 * length ds + 4) (16 * hex_to_nat ds + d)
        = nat_bits (4 * length ds) ((16 * hex_to_nat ds + d) div 2 ^ 4) @ nat_bits 4 (16 * hex_to_nat ds + d)"
    by (rule nat_bits_add)
  also have "(16 * hex_to_nat ds + d) div 2 ^ 4 = hex_to_nat ds" using d(1) by simp
  also have "nat_bits 4 (16 * hex_to_nat ds + d) = nat_bits 4 d" by (rule nat_bits_mod16)
  finally have "nat_bits (4 * length (ds @ [c])) (hex_to_nat (ds @ [c]))
        = nat_bits (4 * length ds) (hex_to_nat ds) @ nat_bits 4 d"
    by (simp add: v add.commute)
  then show ?case using snoc db by simp
qed

lemma digit_char_is_not:
  assumes "d < 16"
  shows "digit_char d \<noteq> CHR ''x''" "digit_char d \<noteq> CHR '',''" "digit_char d \<noteq> CHR '' ''"
  using digit_char_not_x_all assms by (simp_all add: list_all_iff)

lemma join_Cons: "join sep (x # xs) = (if xs = [] then x else x @ sep @ join sep xs)"
  by (cases xs) simp_all

lemma row_digits:
  fixes row :: "int list"
  assumes "row \<noteq> []"
  defines "width \<equiv> (length row + 3) div 4"
  defines "v \<equiv> bits_value (map (\<lambda>v. v \<noteq> 0) row)"
  shows "0 < width" and "v < 16 ^ width" and "length (format_hex (int v) width) = width"
proof -
  show w: "0 < width" using assms(1) by (cases row) (simp_all add: width_def)
  have "v < 2 ^ length row" using bits_value_less[of "map (\<lambda>v. v \<noteq> 0) row"]
    by (simp add: v_def)
  also have "(2::nat) ^ length row \<le> 2 ^ (4 * width)"
    by (rule power_increasing) (simp_all add: width_def)
  also have "(2::nat) ^ (4 * width) = 16 ^ width"
    by (simp add: power_mult)
  finally show v: "v < 16 ^ width" .
  show "length (format_hex (int v) width) = width"
    using w v by (rule format_hex_length)
qed

subsection \<open>The lines of a block\<close>

lemma digit_char_in_alphabet: "d < 16 \<Longrightarrow> digit_char d \<in> set ''0123456789abcdef''"
  unfolding digit_char_def by (rule nth_mem) simp

lemma map_raising_Inr:
  "map_raising f xs = Inr ys \<Longrightarrow> list_all2 (\<lambda>x y. f x = Inr y) xs ys"
  by (induction xs arbitrary: ys) (auto split: sum.splits)

lemma zero_padded_shape:
  assumes "zero_padded arr max_height max_width = Inr new_array"
  shows "length new_array = max_height" and "\<forall>row\<in>set new_array. length row = max_width"
  using assms by (auto simp: zero_padded_def split: if_splits)

lemma chunk2_odd:
  assumes "length ds = 2 * m + 1"
  shows "chunk2 ds = map (\<lambda>k. [ds ! (2 * k), ds ! (2 * k + 1)]) [0..<m] @ [[last ds]]"
  using assms
proof (induction ds arbitrary: m rule: chunk2.induct)
  case (1 a b rest)
  then obtain m' where m: "m = Suc m'" "length rest = 2 * m' + 1"
    by (cases m) auto
  have up: "[0..<Suc m'] = 0 # map Suc [0..<m']"
    by (simp add: upt_conv_Cons map_Suc_upt del: upt_Suc)
  have ne: "rest \<noteq> []" using m(2) by auto
  show ?case
    unfolding m(1) up using 1(1)[OF m(2)] ne by (simp add: comp_def)
next
  case (2 a)
  then show ?case by simp
next
  case 3
  then show ?case by simp
qed

lemma to_bitfield_result_Inr:
  assumes "to_bitfield_result arr max_height max_width = Inr result"
  shows "\<exists>new_array hex_values.
           zero_padded arr max_height max_width = Inr new_array
           \<and> map_raising (hex_value ((max_width + 3) div 4)) (np_where new_array 1 0)
               = Inr hex_values
           \<and> result = map (\<lambda>(hexa, com). hexa @ '','' @ [tab] @ '' '' @ OUTPUT_SEPARATOR @ com)
                        (zip hex_values
                           (map comment (np_where new_array OUTPUT_FILL OUTPUT_EMPTY)))"
  using assms
  by (auto simp: to_bitfield_result_def Let_def OUTPUT_HEXA_def split: sum.splits)

subsection \<open>The run\<close>

lemma map_raising_all_Inr:
  assumes "\<forall>x\<in>set xs. \<exists>y. f x = Inr y"
  shows "\<exists>ys. map_raising f xs = Inr ys"
  using assms by (induction xs) auto

lemma to_bitfield_fits:
  assumes "shape0 arr \<le> max_height" and "shape1 arr \<le> max_width"
    and "0 < max_width \<or> max_height = 0"
  shows "\<exists>file'. to_bitfield file arr max_height max_width = Inr file'"
proof -
  obtain new_array where z: "zero_padded arr max_height max_width = Inr new_array"
    using assms(1,2) by (simp add: zero_padded_def)
  note shape = zero_padded_shape[OF z]
  have "\<forall>row\<in>set (np_where new_array (1::int) 0).
          \<exists>y. hex_value ((max_width + 3) div 4) row = Inr y"
  proof
    fix row assume "row \<in> set (np_where new_array (1::int) 0)"
    then obtain r where r: "r \<in> set new_array" "row = where_row r 1 0"
      by (auto simp: np_where_def)
    then have "new_array \<noteq> []" by auto
    then have "0 < max_width" using assms(3) shape(1) by auto
    then have "r \<noteq> []" using shape(2) r(1) by auto
    from hex_value_row[OF this] show "\<exists>y. hex_value ((max_width + 3) div 4) row = Inr y"
      using r(2) by simp
  qed
  from map_raising_all_Inr[OF this] obtain hex_values where
    "map_raising (hex_value ((max_width + 3) div 4)) (np_where new_array 1 0) = Inr hex_values"
    by blast
  then show ?thesis using z
    by (simp add: to_bitfield_def to_bitfield_result_def Let_def OUTPUT_HEXA_def)
qed

lemma count_filter_zip:
  "length xs = length t \<Longrightarrow> length (filter snd (zip xs t)) = count_list t True"
  by (induction xs t rule: list_induct2) auto

lemma boolean_index_fits:
  assumes "length total_mask = shape0 arr"
  shows "\<exists>cropped. boolean_index arr total_mask = Inr cropped
           \<and> shape1 cropped = shape1 arr \<and> shape0 cropped = count_list total_mask True"
  using assms count_filter_zip[of "cells arr" total_mask]
  by (simp add: boolean_index_def shape0_def)

lemma write_letters_fits:
  assumes "\<forall>arr\<in>set letters. shape0 arr = length total_mask \<and> shape1 arr = max_width"
    and "0 < max_width \<or> count_list total_mask True = 0"
  shows "\<exists>out'. write_letters out letters total_mask (count_list total_mask True) max_width
           = (out', None)"
  using assms(1)
proof (induction letters arbitrary: out)
  case Nil
  then show ?case by simp
next
  case (Cons char_arr rest)
  have "length total_mask = shape0 char_arr" using Cons.prems by simp
  from boolean_index_fits[OF this] obtain cropped where
    c: "boolean_index char_arr total_mask = Inr cropped"
      "shape1 cropped = shape1 char_arr" "shape0 cropped = count_list total_mask True"
    by blast
  have "shape0 cropped \<le> count_list total_mask True" "shape1 cropped \<le> max_width"
    using c Cons.prems by simp_all
  from to_bitfield_fits[OF this assms(2)] obtain out' where
    f: "to_bitfield out cropped (count_list total_mask True) max_width = Inr out'"
    by blast
  have "\<forall>arr\<in>set rest. shape0 arr = length total_mask \<and> shape1 arr = max_width"
    using Cons.prems by simp
  from Cons.IH[OF this, of out'] show ?case using c(1) f by simp
qed

lemma char_to_pixels_shape:
  "shape0 (fst (char_to_pixels text font width height)) = height"
  "shape1 (fst (char_to_pixels text font width height)) = width"
  "length (snd (char_to_pixels text font width height)) = height"
  by (simp_all add: char_to_pixels_def Let_def shape0_def np_where_def)

lemma char_to_pixels_no_columns:
  "True \<notin> set (snd (char_to_pixels text font 0 height))"
  by (auto simp: char_to_pixels_def Let_def np_where_def where_row_def)

lemma dilated_in_range:
  assumes "dilated m j" and "j < length m"
  shows "True \<in> set m"
proof -
  have "nat (max (int j - 1) 0) < length m" "nat (min (int j + 1) (int (length m) - 1)) < length m"
    using assms(2) by auto
  then show ?thesis using assms unfolding dilated_def by (metis nth_mem)
qed

lemma determine_final_height_blank:
  assumes "masks \<noteq> []" and "\<forall>m\<in>set masks. length m = n" and "\<forall>m\<in>set masks. True \<notin> set m"
  shows "\<exists>t. determine_final_height masks = Inr (t, 0) \<and> length t = n \<and> count_list t True = 0"
proof -
  from determine_final_height_equal_lengths[OF assms(1,2)] obtain t where
    t: "determine_final_height masks = Inr (t, count_list t True)" "length t = n"
       "\<forall>j<n. t ! j = (\<exists>m\<in>set masks. dilated m j)"
    by blast
  have "True \<notin> set t"
  proof
    assume "True \<in> set t"
    then obtain j where j: "j < n" "t ! j" using t(2) by (auto simp: in_set_conv_nth)
    then obtain m where m: "m \<in> set masks" "dilated m j" using t(3) by blast
    then have "True \<in> set m" using dilated_in_range[of m j] assms(2) j(1) by auto
    then show False using assms(3) m(1) by blast
  qed
  then have "count_list t True = 0" by (simp add: count_list_0_iff)
  then show ?thesis using t by auto
qed

lemma resolve_font_size_unknown:
  assumes "font_size_option \<notin> set [''font_size'', ''letter_max_px_width'',
                                     ''str_max_px_width'', ''max_px_both'']"
  shows "resolve_font_size font_path all_letters font_size_option letter_max_px_width
           str_max_px_width max_width_string input_font_size = Some (Inl UnboundLocalError)"
  using assms by (simp add: resolve_font_size_def)

lemma resolve_font_size_known:
  assumes "font_size_option \<in> set [''font_size'', ''letter_max_px_width'',
                                  ''str_max_px_width'', ''max_px_both'']"
    and "resolve_font_size font_path all_letters font_size_option letter_max_px_width
           str_max_px_width max_width_string input_font_size = Some x"
  shows "\<exists>font_size. x = Inr font_size"
  using assms by (auto simp: resolve_font_size_def split: if_splits option.splits)

lemma font_to_pixels_error:
  assumes "resolve_font_size font_path all_letters font_size_option letter_max_px_width
             str_max_px_width max_width_string input_font_size = Some (Inl e)"
  shows "font_to_pixels font_path all_letters font_size_option letter_max_px_width
           str_max_px_width max_width_string input_font_size
         = Some \<lparr>raised = Some e, rasterized = 0, printed = [], destination = None\<rparr>"
  using assms by (simp add: font_to_pixels_def)

lemma font_to_pixels_empty:
  assumes "resolve_font_size font_path [] font_size_option letter_max_px_width
             str_max_px_width max_width_string input_font_size = Some (Inr font_size)"
  shows "font_to_pixels font_path [] font_size_option letter_max_px_width
           str_max_px_width max_width_string input_font_size
         = Some \<lparr>raised = Some IndexError, rasterized = 0, printed = [], destination = None\<rparr>"
  using assms
  by (simp add: font_to_pixels_def Let_def determine_final_height_def split: prod.splits)

lemma font_to_pixels_letters:
  assumes "resolve_font_size font_path all_letters font_size_option letter_max_px_width
             str_max_px_width max_width_string input_font_size = Some (Inr font_size)"
    and "all_letters \<noteq> []"
  shows "\<exists>line text.
           font_to_pixels font_path all_letters font_size_option letter_max_px_width
             str_max_px_width max_width_string input_font_size
           = Some \<lparr>raised = None, rasterized = length all_letters, printed = [line],
                   destination = Some text\<rparr>"
proof -
  define font_inst where "font_inst = font_path font_size"
  obtain max_width max_height where
    dims: "get_max_letter_dimensions all_letters font_inst = (max_width, max_height)"
    by (cases "get_max_letter_dimensions all_letters font_inst")
  define glyphs where
    "glyphs = map (\<lambda>char. char_to_pixels [char] font_inst (nat max_width) (nat max_height))
                all_letters"
  define letters where "letters = map fst glyphs"
  define masks where "masks = map snd glyphs"
  have ne: "masks \<noteq> []" using assms(2) by (simp add: masks_def glyphs_def)
  have len: "\<forall>m\<in>set masks. length m = nat max_height"
    by (auto simp: masks_def glyphs_def char_to_pixels_shape)
  obtain t where t: "determine_final_height masks = Inr (t, count_list t True)"
      "length t = nat max_height" "0 < nat max_width \<or> count_list t True = 0"
  proof (cases "0 < nat max_width")
    case True
    from determine_final_height_equal_lengths[OF ne len] True that show ?thesis by blast
  next
    case False
    then have "\<forall>m\<in>set masks. True \<notin> set m"
      using char_to_pixels_no_columns by (auto simp: masks_def glyphs_def)
    from determine_final_height_blank[OF ne len this] that show ?thesis by force
  qed
  have "\<forall>arr\<in>set letters. shape0 arr = length t \<and> shape1 arr = nat max_width"
    by (auto simp: letters_def glyphs_def char_to_pixels_shape t(2))
  from write_letters_fits[OF this t(3), of generate_header] obtain out where
    w: "write_letters generate_header letters t (count_list t True) (nat max_width) = (out, None)"
    by blast
  show ?thesis
    using assms(1) dims t(1) w
    unfolding font_to_pixels_def Let_def masks_def letters_def glyphs_def font_inst_def
    by simp
qed

lemma width_search_without_limit:
  "px_width \<le> 0 \<Longrightarrow> determine_font_size_by_max_width string font px_width = Some 1"
  by (simp add: determine_font_size_by_max_width_def width_loop_stop)

lemma height_search_without_limit:
  "px_height \<le> 2 \<Longrightarrow> determine_font_size_by_max_height string font px_height = Some 1"
  by (simp add: determine_font_size_by_max_height_def height_loop_stop)

text \<open>
  C9, as stated: a pixel limit that is not positive makes the run fail before it
  rasterises or writes. With the width limit 0 the search returns size 1, the run
  rasterises the character, raises nothing and writes the whole file.
\<close>

theorem limit_not_checked_counterexample:
  "map_option raised (font_to_pixels linear_font ''0'' ''str_max_px_width'' 40 0 ''23'' 60)
     = Some None
   \<and> map_option rasterized (font_to_pixels linear_font ''0'' ''str_max_px_width'' 40 0 ''23'' 60)
     = Some 1
   \<and> map_option destination
         (font_to_pixels linear_font ''0'' ''str_max_px_width'' 40 0 ''23'' 60)
     = Some (Some (generate_header
                   @ join [newline] (replicate 4 (''0x3,'' @ [tab] @ '' // 11''))
                   @ [newline, newline] @ generate_footer 2 4))"
  by code_simp

text \<open>
  C9, amended: a run of \<open>font_to_pixels\<close> that ends raises UnboundLocalError when the
  mode is none of the four, and IndexError when the mode is one of them and the alphabet
  is empty; in every other case it raises nothing, rasterises every character and writes
  the file. A run that raises has rasterised nothing, printed nothing and has not opened
  the output file. A limit that is not positive is not an error: the width search
  returns 1 for a limit of 0 or less, the height search for a limit of 2 or less.
  The font engine of the model always answers, so a font that cannot be loaded and a
  file that cannot be written are not among the runs.
\<close>

theorem run_errors:
  assumes "font_to_pixels font_path all_letters font_size_option letter_max_px_width
             str_max_px_width max_width_string input_font_size = Some r"
  shows "(font_size_option \<notin> set [''font_size'', ''letter_max_px_width'',
                                      ''str_max_px_width'', ''max_px_both'']
            \<longrightarrow> raised r = Some UnboundLocalError)
         \<and> (font_size_option \<in> set [''font_size'', ''letter_max_px_width'',
                                       ''str_max_px_width'', ''max_px_both'']
              \<and> all_letters = []
            \<longrightarrow> raised r = Some IndexError)
         \<and> (font_size_option \<in> set [''font_size'', ''letter_max_px_width'',
                                       ''str_max_px_width'', ''max_px_both'']
              \<and> all_letters \<noteq> []
            \<longrightarrow> raised r = None \<and> rasterized r = length all_letters \<and> destination r \<noteq> None)
         \<and> (raised r \<noteq> None
            \<longrightarrow> rasterized r = 0 \<and> printed r = [] \<and> destination r = None)
         \<and> (str_max_px_width \<le> 0
            \<longrightarrow> determine_font_size_by_max_width max_width_string font_path str_max_px_width
                = Some 1)
         \<and> (letter_max_px_width \<le> 2
            \<longrightarrow> determine_font_size_by_max_height all_letters font_path letter_max_px_width
                = Some 1)"
proof -
  let ?known = "font_size_option \<in> set [''font_size'', ''letter_max_px_width'',
                                       ''str_max_px_width'', ''max_px_both'']"
  obtain x where x: "resolve_font_size font_path all_letters font_size_option
      letter_max_px_width str_max_px_width max_width_string input_font_size = Some x"
    using assms by (auto simp: font_to_pixels_def split: option.splits)
  have unknown: "r = \<lparr>raised = Some UnboundLocalError, rasterized = 0, printed = [],
                       destination = None\<rparr>" if "\<not> ?known"
  proof -
    have "resolve_font_size font_path all_letters font_size_option letter_max_px_width
            str_max_px_width max_width_string input_font_size = Some (Inl UnboundLocalError)"
      using that by (rule resolve_font_size_unknown)
    from font_to_pixels_error[OF this] assms show ?thesis by simp
  qed
  have empty: "r = \<lparr>raised = Some IndexError, rasterized = 0, printed = [],
                     destination = None\<rparr>" if "?known" "all_letters = []"
  proof -
    from resolve_font_size_known[OF that(1) x] obtain font_size where "x = Inr font_size"
      by blast
    then show ?thesis using font_to_pixels_empty[of font_path] x that(2) assms by simp
  qed
  have letters: "raised r = None \<and> rasterized r = length all_letters \<and> destination r \<noteq> None"
    if "?known" "all_letters \<noteq> []"
  proof -
    from resolve_font_size_known[OF that(1) x] obtain font_size where "x = Inr font_size"
      by blast
    then show ?thesis using font_to_pixels_letters[OF _ that(2)] x assms by fastforce
  qed
  have "rasterized r = 0 \<and> printed r = [] \<and> destination r = None" if "raised r \<noteq> None"
  proof (cases ?known)
    case False
    then show ?thesis using unknown by simp
  next
    case True
    then have "all_letters = []" using letters that by blast
    then show ?thesis using empty True by simp
  qed
  then have c4: "raised r \<noteq> None
            \<longrightarrow> rasterized r = 0 \<and> printed r = [] \<and> destination r = None"
    by blast
  have c1: "font_size_option \<notin> set [''font_size'', ''letter_max_px_width'',
                                      ''str_max_px_width'', ''max_px_both'']
            \<longrightarrow> raised r = Some UnboundLocalError"
    using unknown by simp
  have c2: "font_size_option \<in> set [''font_size'', ''letter_max_px_width'',
                                       ''str_max_px_width'', ''max_px_both'']
              \<and> all_letters = []
            \<longrightarrow> raised r = Some IndexError"
    using empty by simp
  have c3: "font_size_option \<in> set [''font_size'', ''letter_max_px_width'',
                                       ''str_max_px_width'', ''max_px_both'']
              \<and> all_letters \<noteq> []
            \<longrightarrow> raised r = None \<and> rasterized r = length all_letters \<and> destination r \<noteq> None"
    using letters by blast
  have c5: "str_max_px_width \<le> 0
            \<longrightarrow> determine_font_size_by_max_width max_width_string font_path str_max_px_width
                = Some 1"
    using width_search_without_limit by blast
  have c6: "letter_max_px_width \<le> 2
            \<longrightarrow> determine_font_size_by_max_height all_letters font_path letter_max_px_width
                = Some 1"
    using height_search_without_limit by blast
  show ?thesis by (intro conjI c1 c2 c3 c4 c5 c6)
qed

theorem run_errors_witness:
  "font_to_pixels linear_font ''0'' ''bogus'' 40 360 ''23'' 60
     = Some \<lparr>raised = Some UnboundLocalError, rasterized = 0, printed = [],
             destination = None\<rparr>
   \<and> font_to_pixels linear_font [] ''str_max_px_width'' 2 0 ''23'' 60
     = Some \<lparr>raised = Some IndexError, rasterized = 0, printed = [], destination = None\<rparr>
   \<and> determine_font_size_by_max_width ''23'' linear_font 0 = Some 1
   \<and> determine_font_size_by_max_height [] linear_font 2 = Some 1"
proof -
  have a: "font_to_pixels linear_font ''0'' ''bogus'' 40 360 ''23'' 60
     = Some \<lparr>raised = Some UnboundLocalError, rasterized = 0, printed = [],
             destination = None\<rparr>"
    by code_simp
  have b: "font_to_pixels linear_font [] ''str_max_px_width'' 2 0 ''23'' 60
     = Some \<lparr>raised = Some IndexError, rasterized = 0, printed = [], destination = None\<rparr>"
    by code_simp
  from run_errors[OF b]
  have "determine_font_size_by_max_width ''23'' linear_font 0 = Some 1
        \<and> determine_font_size_by_max_height [] linear_font 2 = Some 1"
    by simp
  then show ?thesis using a b by simp
qed

subsection \<open>Reading the literals of a line as bytes\<close>

lemma split_comma_plain: "CHR '','' \<notin> set x \<Longrightarrow> split_comma x = [x]"
proof (induction x)
  case Nil
  then show ?case by simp
next
  case (Cons c x)
  then show ?case by (cases x) auto
qed

lemma split_comma_sep:
  "CHR '','' \<notin> set x \<Longrightarrow>
   split_comma (x @ CHR '','' # CHR '' '' # rest) = x # split_comma rest"
proof (induction x)
  case Nil
  then show ?case by simp
next
  case (Cons c x)
  obtain d s where ds: "x @ CHR '','' # CHR '' '' # rest = d # s" by (cases x) auto
  have c: "c \<noteq> CHR '',''" using Cons.prems by auto
  have "split_comma (x @ CHR '','' # CHR '' '' # rest) = x # split_comma rest"
    using Cons by simp
  then have "split_comma (d # s) = x # split_comma rest" unfolding ds .
  then have "split_comma (c # d # s) = (c # x) # split_comma rest"
    using c by simp
  then show ?case unfolding ds[symmetric] by simp
qed

lemma split_comma_join:
  assumes "xs \<noteq> []" and "\<forall>x\<in>set xs. CHR '','' \<notin> set x"
  shows "split_comma (join '', '' xs) = xs"
  using assms
proof (induction xs)
  case Nil
  then show ?case by simp
next
  case (Cons x xs)
  show ?case
  proof (cases "xs = []")
    case True
    then show ?thesis using Cons.prems by (simp add: split_comma_plain)
  next
    case False
    then have "split_comma (join '', '' xs) = xs" using Cons by simp
    then show ?thesis using False Cons.prems
      by (simp add: join_Cons split_comma_sep)
  qed
qed

lemma literal_no_comma:
  assumes "\<forall>c\<in>set g. \<exists>d<16. c = digit_char d"
  shows "CHR '','' \<notin> set (''0x'' @ g)"
proof -
  have "CHR '','' \<notin> set g"
  proof
    assume "CHR '','' \<in> set g"
    then obtain d where "d < 16" "CHR '','' = digit_char d" using assms by blast
    then show False using digit_char_is_not(2)[of d] by simp
  qed
  then show ?thesis by simp
qed

lemma literal_byte_literal:
  assumes "g \<noteq> []" and "length g \<le> 2" and "\<forall>c\<in>set g. \<exists>d<16. c = digit_char d"
  shows "literal_byte (''0x'' @ g) = Some (hex_to_nat g)"
proof -
  have "list_all (\<lambda>c. hex_digit_of c \<noteq> None) g"
    using assms(3) hex_digit_of_digit_char by (auto simp: list_all_iff)
  then show ?thesis using assms(1,2) by (simp add: literal_byte_def)
qed

lemma chunk2_pieces:
  "g \<in> set (chunk2 ds) \<Longrightarrow> g \<noteq> [] \<and> length g \<le> 2 \<and> set g \<subseteq> set ds"
  by (induction ds rule: chunk2.induct) auto

lemma chunk2_nonempty: "ds \<noteq> [] \<Longrightarrow> chunk2 ds \<noteq> []"
  by (cases ds rule: chunk2.cases) simp_all

lemma decode_bytes_literals:
  assumes "ds \<noteq> []" and "\<forall>c\<in>set ds. \<exists>d<16. c = digit_char d"
  shows "decode_bytes (join '', '' (map (\<lambda>g. ''0x'' @ g) (chunk2 ds)))
         = Some (concat (map (\<lambda>g. nat_bits 8 (hex_to_nat g)) (chunk2 ds)))"
proof -
  let ?lits = "map (\<lambda>g. ''0x'' @ g) (chunk2 ds)"
  have piece: "g \<noteq> [] \<and> length g \<le> 2 \<and> (\<forall>c\<in>set g. \<exists>d<16. c = digit_char d)"
    if "g \<in> set (chunk2 ds)" for g
    using chunk2_pieces[OF that] assms(2) by blast
  have "\<forall>x\<in>set ?lits. CHR '','' \<notin> set x"
    using piece literal_no_comma by auto
  moreover have "?lits \<noteq> []" using chunk2_nonempty[OF assms(1)] by simp
  ultimately have sp: "split_comma (join '', '' ?lits) = ?lits"
    by (intro split_comma_join) auto
  have bytes: "map literal_byte ?lits = map (\<lambda>g. Some (hex_to_nat g)) (chunk2 ds)"
    using piece literal_byte_literal by (simp add: comp_def)
  show ?thesis
    unfolding decode_bytes_def Let_def sp bytes
    by (simp add: list_all_iff comp_def)
qed

lemma digit_bits_length: "d < 16 \<Longrightarrow> length (digit_bits (digit_char d)) = 4"
  by (simp add: digit_bits_def hex_digit_of_digit_char length_nat_bits)

lemma digits_bits_length:
  assumes "\<forall>c\<in>set ds. \<exists>d<16. c = digit_char d"
  shows "length (concat (map digit_bits ds)) = 4 * length ds"
  using assms by (induction ds) (auto simp: digit_bits_length)

lemma byte_two_digits:
  assumes "\<forall>c\<in>set [a, b]. \<exists>d<16. c = digit_char d"
  shows "nat_bits 8 (hex_to_nat [a, b]) = digit_bits a @ digit_bits b"
  using digits_bits[OF assms] by simp

lemma hex_to_nat_single: "d < 16 \<Longrightarrow> hex_to_nat [digit_char d] = d"
  by (simp add: hex_to_nat_def char_value_digit_char)

lemma byte_one_digit:
  assumes "d < 16"
  shows "nat_bits 8 (hex_to_nat [digit_char d])
         = replicate 4 False @ digit_bits (digit_char d)"
proof -
  have "d < 2 ^ 4" using assms by simp
  from nat_bits_small[OF this, of 4]
  have "nat_bits 8 d = replicate 4 False @ nat_bits 4 d" by simp
  then show ?thesis using assms
    by (simp add: hex_to_nat_single digit_bits_def hex_digit_of_digit_char)
qed

lemma bytes_even:
  assumes "even (length ds)" and "\<forall>c\<in>set ds. \<exists>d<16. c = digit_char d"
  shows "concat (map (\<lambda>g. nat_bits 8 (hex_to_nat g)) (chunk2 ds)) = concat (map digit_bits ds)"
  using assms
proof (induction ds rule: chunk2.induct)
  case (1 a b rest)
  have ab: "\<forall>c\<in>set [a, b]. \<exists>d<16. c = digit_char d" using 1(3) by simp
  show ?case using 1 byte_two_digits[OF ab] by simp
next
  case (2 a)
  then show ?case by simp
next
  case 3
  then show ?case by simp
qed

lemma bytes_odd:
  assumes "odd (length ds)" and "\<forall>c\<in>set ds. \<exists>d<16. c = digit_char d"
  shows "concat (map (\<lambda>g. nat_bits 8 (hex_to_nat g)) (chunk2 ds))
         = concat (map digit_bits (butlast ds)) @ replicate 4 False @ digit_bits (last ds)"
  using assms
proof (induction ds rule: chunk2.induct)
  case (1 a b rest)
  have ab: "\<forall>c\<in>set [a, b]. \<exists>d<16. c = digit_char d" using 1(3) by simp
  have ne: "rest \<noteq> []" using 1(2) by auto
  show ?case using 1 byte_two_digits[OF ab] ne by simp
next
  case (2 a)
  then obtain d where "d < 16" "a = digit_char d" by auto
  then show ?case using byte_one_digit by simp
next
  case 3
  then show ?case by simp
qed

subsection \<open>The rows that to_bitfield writes\<close>

lemma row_digit_bits:
  fixes row :: "int list"
  assumes "row \<noteq> []"
  shows "concat (map digit_bits
           (format_hex (int (bits_value (map (\<lambda>v. v \<noteq> 0) row))) ((length row + 3) div 4)))
         = replicate (4 * ((length row + 3) div 4) - length row) False @ map (\<lambda>v. v \<noteq> 0) row"
proof -
  define width where "width = (length row + 3) div 4"
  define bs where "bs = map (\<lambda>v. v \<noteq> 0) row"
  define ds where "ds = format_hex (int (bits_value bs)) width"
  have len: "length ds = width"
    using row_digits(3)[OF assms] by (simp add: ds_def bs_def width_def)
  have chars: "\<forall>c\<in>set ds. \<exists>d<16. c = digit_char d"
    using format_hex_chars by (auto simp: ds_def)
  have small: "bits_value bs < 2 ^ length row"
    using bits_value_less[of bs] by (simp add: bs_def)
  have w: "4 * width = (4 * width - length row) + length row"
    by (simp add: width_def)
  have "concat (map digit_bits ds) = nat_bits (4 * width) (hex_to_nat ds)"
    using digits_bits[OF chars] len by simp
  also have "hex_to_nat ds = bits_value bs" by (simp add: ds_def format_hex_value)
  also have "nat_bits (4 * width) (bits_value bs)
        = replicate (4 * width - length row) False @ nat_bits (length row) (bits_value bs)"
    by (subst w) (rule nat_bits_small[OF small])
  also have "nat_bits (length row) (bits_value bs) = bs"
    using nat_bits_bits_value[of bs] by (simp add: bs_def)
  finally show ?thesis by (simp add: bs_def width_def ds_def)
qed

lemma zero_padded_rows:
  assumes "zero_padded arr max_height max_width = Inr new_array" and "i < max_height"
  shows "new_array ! i = pixel_row arr max_width i"
  using assms by (auto simp: zero_padded_def pixel_row_def split: if_splits)

text \<open>
  For an array whose rows all have \<open>shape1\<close> pixels, the row of the canvas is the
  row of the array with zeros added on the right.
\<close>

lemma pixel_row_padded:
  assumes "well_shaped arr" and "i < shape0 arr" and "shape1 arr \<le> max_width"
  shows "pixel_row arr max_width i = cells arr ! i @ replicate (max_width - shape1 arr) 0"
proof (rule nth_equalityI)
  have len: "length (cells arr ! i) = shape1 arr"
    using assms(1,2) by (simp add: well_shaped_def shape0_def list_all_length)
  show "length (pixel_row arr max_width i)
        = length (cells arr ! i @ replicate (max_width - shape1 arr) 0)"
    using len assms(3) by (simp add: pixel_row_def)
  fix j assume "j < length (pixel_row arr max_width i)"
  then have j: "j < max_width" by (simp add: pixel_row_def)
  show "pixel_row arr max_width i ! j
        = (cells arr ! i @ replicate (max_width - shape1 arr) 0) ! j"
    using j len assms(2) by (simp add: pixel_row_def nth_append)
qed

lemma length_pixel_row: "length (pixel_row arr max_width i) = max_width"
  by (simp add: pixel_row_def)

lemma to_bitfield_result_lines:
  assumes "to_bitfield_result arr max_height max_width = Inr result"
  shows "length result = max_height"
    and "i < max_height \<Longrightarrow> 0 < max_width"
    and "i < max_height \<Longrightarrow>
         result ! i
         = hex_with_padding (int (bits_value (map (\<lambda>v. v \<noteq> 0) (pixel_row arr max_width i))))
             ((max_width + 3) div 4)
           @ '','' @ [tab] @ '' '' @ OUTPUT_SEPARATOR
           @ map (\<lambda>v. if v \<noteq> 0 then CHR ''1'' else CHR ''0'') (pixel_row arr max_width i)"
proof -
  from to_bitfield_result_Inr[OF assms] obtain new_array hex_values where
    z: "zero_padded arr max_height max_width = Inr new_array"
    and m: "map_raising (hex_value ((max_width + 3) div 4)) (np_where new_array 1 0)
               = Inr hex_values"
    and r: "result = map (\<lambda>(hexa, com). hexa @ '','' @ [tab] @ '' '' @ OUTPUT_SEPARATOR @ com)
                        (zip hex_values
                           (map comment (np_where new_array OUTPUT_FILL OUTPUT_EMPTY)))"
    by blast
  note shape = zero_padded_shape[OF z]
  from map_raising_Inr[OF m]
  have l2: "list_all2 (\<lambda>x y. hex_value ((max_width + 3) div 4) x = Inr y)
              (np_where new_array 1 0) hex_values" .
  then have lh: "length hex_values = max_height"
    using shape(1) by (auto simp: np_where_def dest: list_all2_lengthD)
  show "length result = max_height"
    using lh shape(1) by (simp add: r np_where_def)
  have row: "pixel_row arr max_width i \<noteq> []
       \<and> hex_values ! i
         = hex_with_padding (int (bits_value (map (\<lambda>v. v \<noteq> 0) (pixel_row arr max_width i))))
             ((max_width + 3) div 4)"
    if i: "i < max_height"
  proof -
    define row where "row = pixel_row arr max_width i"
    have na: "new_array ! i = row" using zero_padded_rows[OF z i] by (simp add: row_def)
    have hv: "hex_value ((max_width + 3) div 4) (where_row row 1 0) = Inr (hex_values ! i)"
      using list_all2_nthD[OF l2, of i] i shape(1) na by (simp add: np_where_def)
    have ne: "row \<noteq> []"
    proof
      assume "row = []"
      then show False using hv hex_value_empty by simp
    qed
    then show ?thesis
      using hv hex_value_row[OF ne, of "(max_width + 3) div 4"] by (simp add: row_def)
  qed
  show "0 < max_width" if "i < max_height"
    using row[OF that] length_pixel_row[of arr max_width i] by (cases max_width) auto
  show "result ! i
         = hex_with_padding (int (bits_value (map (\<lambda>v. v \<noteq> 0) (pixel_row arr max_width i))))
             ((max_width + 3) div 4)
           @ '','' @ [tab] @ '' '' @ OUTPUT_SEPARATOR
           @ map (\<lambda>v. if v \<noteq> 0 then CHR ''1'' else CHR ''0'') (pixel_row arr max_width i)"
    if i: "i < max_height"
  proof -
    have c: "comment (where_row (new_array ! i) OUTPUT_FILL OUTPUT_EMPTY)
             = map (\<lambda>v. if v \<noteq> 0 then CHR ''1'' else CHR ''0'') (pixel_row arr max_width i)"
      using zero_padded_rows[OF z i] by (simp add: row_comment bit_char_def)
    show ?thesis
      using i lh shape(1) c row[OF i] by (simp add: r np_where_def)
  qed
qed

lemma to_bitfield_result_fits:
  assumes "shape0 arr \<le> max_height" and "shape1 arr \<le> max_width" and "0 < max_width"
  shows "\<exists>result. to_bitfield_result arr max_height max_width = Inr result"
proof -
  from to_bitfield_fits[OF assms(1,2), of "[]"] assms(3)
  obtain out where "to_bitfield [] arr max_height max_width = Inr out" by blast
  then show ?thesis by (auto simp: to_bitfield_def split: sum.splits)
qed

lemma to_bitfield_writes:
  "to_bitfield_result arr max_height max_width = Inr result \<Longrightarrow>
   to_bitfield file arr max_height max_width
   = Inr (file @ join [newline] result @ [newline, newline])"
  by (simp add: to_bitfield_def)

lemma row_bytes:
  fixes row :: "int list"
  assumes "row \<noteq> []"
  defines "width \<equiv> (length row + 3) div 4"
  defines "padded \<equiv> replicate (4 * width - length row) False @ map (\<lambda>v. v \<noteq> 0) row"
  defines "hexa \<equiv> hex_with_padding (int (bits_value (map (\<lambda>v. v \<noteq> 0) row))) width"
  shows "even width \<Longrightarrow> decode_bytes hexa = Some padded"
    and "odd width \<Longrightarrow>
         decode_bytes hexa
         = Some (take (4 * (width - 1)) padded @ replicate 4 False
                 @ drop (4 * (width - 1)) padded)"
proof -
  define ds where "ds = format_hex (int (bits_value (map (\<lambda>v. v \<noteq> 0) row))) width"
  have len: "length ds = width"
    using row_digits(3)[OF assms(1)] by (simp add: ds_def width_def)
  have pos: "0 < width" using row_digits(1)[OF assms(1)] by (simp add: width_def)
  have ne: "ds \<noteq> []" using len pos by auto
  have chars: "\<forall>c\<in>set ds. \<exists>d<16. c = digit_char d"
    using format_hex_chars by (auto simp: ds_def)
  have bits: "concat (map digit_bits ds) = padded"
    using row_digit_bits[OF assms(1)] by (simp add: ds_def width_def padded_def)
  have dec: "decode_bytes hexa
             = Some (concat (map (\<lambda>g. nat_bits 8 (hex_to_nat g)) (chunk2 ds)))"
    using decode_bytes_literals[OF ne chars]
    by (simp only: hexa_def hex_with_padding_chunk2 ds_def)
  show "decode_bytes hexa = Some padded" if "even width"
    using dec bytes_even[OF _ chars] that len bits by simp
  show "decode_bytes hexa
         = Some (take (4 * (width - 1)) padded @ replicate 4 False
                 @ drop (4 * (width - 1)) padded)" if "odd width"
  proof -
    have split: "ds = butlast ds @ [last ds]" using ne by simp
    have bchars: "\<forall>c\<in>set (butlast ds). \<exists>d<16. c = digit_char d"
      using chars by (meson in_set_butlastD)
    have la: "length (concat (map digit_bits (butlast ds))) = 4 * (width - 1)"
      using digits_bits_length[OF bchars] len by simp
    have "padded = concat (map digit_bits (butlast ds @ [last ds]))"
      using bits split by simp
    then have p: "padded = concat (map digit_bits (butlast ds)) @ digit_bits (last ds)"
      by simp
    have t: "take (4 * (width - 1)) padded = concat (map digit_bits (butlast ds))"
      and d: "drop (4 * (width - 1)) padded = digit_bits (last ds)"
      using la by (simp_all add: p)
    show ?thesis
      using dec bytes_odd[OF _ chars] that len unfolding t d by simp
  qed
qed

subsection \<open>Claims about the encoding\<close>

text \<open>
  C3, as stated: every group of the digit string has two characters and is written as
  \<open>0xHH\<close>, for every row. \<open>to_bitfield\<close> writes a row of 4 pixels with one digit,
  as \<open>0xf\<close>, and a row of 12 pixels as \<open>0xab, 0xc\<close>, the last literal of one
  digit; for a row of no pixels it raises the ValueError of \<open>int('', 2)\<close>.
\<close>

theorem one_digit_literal_counterexample:
  "to_bitfield_result row4_array 1 4 = Inr [''0xf,'' @ [tab] @ '' // 1111'']
   \<and> to_bitfield_result row12_array 1 12
       = Inr [''0xab, 0xc,'' @ [tab] @ '' // 101010111100'']
   \<and> to_bitfield_result no_column_array 1 0 = Inl ValueError"
  by code_simp

text \<open>
  C3, amended: for an array that fits a canvas of \<open>max_height\<close> rows and
  \<open>max_width\<close> columns, \<open>max_width\<close> at least 1, \<open>to_bitfield\<close> writes one line
  for each row of the canvas. The digits of the line are the number of the row (first
  pixel most significant, a pixel that is not 0 counting as 1) in exactly
  \<open>ceil(max_width / 4)\<close> hexadecimal digits; they are cut into groups of two from
  the left, the last group of one digit when their number is odd; each group is
  written after \<open>0x\<close> and the literals are joined by a comma and a space. The
  comment of the line has 1 for a pixel that is not 0 and 0 for the others. For the row
  on, on, on, on, off, off, off, off the line has \<open>0xf0\<close> and \<open>11110000\<close>.
\<close>

theorem row_encoding:
  assumes "shape0 arr \<le> max_height" and "shape1 arr \<le> max_width" and "0 < max_width"
  shows "\<exists>result.
           to_bitfield_result arr max_height max_width = Inr result
           \<and> to_bitfield file arr max_height max_width
               = Inr (file @ join [newline] result @ [newline, newline])
           \<and> length result = max_height
           \<and> (\<forall>i<max_height. \<exists>digits.
                 length digits = (max_width + 3) div 4
                 \<and> (\<forall>c\<in>set digits. c \<in> set ''0123456789abcdef'')
                 \<and> hex_to_nat digits
                     = bits_value (map (\<lambda>v. v \<noteq> 0) (pixel_row arr max_width i))
                 \<and> result ! i
                     = join '', '' (map (\<lambda>g. ''0x'' @ g) (chunk2 digits))
                       @ '','' @ [tab] @ '' '' @ OUTPUT_SEPARATOR
                       @ map (\<lambda>v. if v \<noteq> 0 then CHR ''1'' else CHR ''0'')
                           (pixel_row arr max_width i))"
proof -
  from to_bitfield_result_fits[OF assms] obtain result where
    r: "to_bitfield_result arr max_height max_width = Inr result" by blast
  note lines = to_bitfield_result_lines[OF r]
  have row: "\<exists>digits.
                 length digits = (max_width + 3) div 4
                 \<and> (\<forall>c\<in>set digits. c \<in> set ''0123456789abcdef'')
                 \<and> hex_to_nat digits
                     = bits_value (map (\<lambda>v. v \<noteq> 0) (pixel_row arr max_width i))
                 \<and> result ! i
                     = join '', '' (map (\<lambda>g. ''0x'' @ g) (chunk2 digits))
                       @ '','' @ [tab] @ '' '' @ OUTPUT_SEPARATOR
                       @ map (\<lambda>v. if v \<noteq> 0 then CHR ''1'' else CHR ''0'')
                           (pixel_row arr max_width i)"
    if i: "i < max_height" for i
  proof -
    define row where "row = pixel_row arr max_width i"
    define digits where
      "digits = format_hex (int (bits_value (map (\<lambda>v. v \<noteq> 0) row))) ((max_width + 3) div 4)"
    have len: "length row = max_width" by (simp add: row_def length_pixel_row)
    then have ne: "row \<noteq> []" using assms(3) by auto
    have "length digits = (max_width + 3) div 4"
      using row_digits(3)[OF ne] len by (simp add: digits_def)
    moreover have "\<forall>c\<in>set digits. c \<in> set ''0123456789abcdef''"
      using format_hex_chars digit_char_in_alphabet unfolding digits_def by blast
    moreover have "hex_to_nat digits = bits_value (map (\<lambda>v. v \<noteq> 0) row)"
      by (simp add: digits_def format_hex_value)
    moreover have "result ! i
                     = join '', '' (map (\<lambda>g. ''0x'' @ g) (chunk2 digits))
                       @ '','' @ [tab] @ '' '' @ OUTPUT_SEPARATOR
                       @ map (\<lambda>v. if v \<noteq> 0 then CHR ''1'' else CHR ''0'') row"
      using lines(3)[OF i]
      by (simp only: hex_with_padding_chunk2 digits_def row_def)
    ultimately show ?thesis unfolding row_def by blast
  qed
  show ?thesis using r to_bitfield_writes[OF r] lines(1) row by blast
qed

theorem row_encoding_witness:
  "shape0 row8_array \<le> 1 \<and> shape1 row8_array \<le> 8
   \<and> pixel_row row8_array 8 0 = [255, 255, 255, 255, 0, 0, 0, 0]
   \<and> to_bitfield_result row8_array 1 8 = Inr [''0xf0,'' @ [tab] @ '' // 11110000'']
   \<and> to_bitfield [] row8_array 1 8
       = Inr (''0xf0,'' @ [tab] @ '' // 11110000'' @ [newline, newline])"
proof -
  have a: "shape0 row8_array \<le> 1" and b: "shape1 row8_array \<le> 8"
    by (simp_all add: row8_array_def shape0_def)
  have p: "pixel_row row8_array 8 0 = [255, 255, 255, 255, 0, 0, 0, 0]"
    by code_simp
  have e: "to_bitfield_result row8_array 1 8 = Inr [''0xf0,'' @ [tab] @ '' // 11110000'']"
    by code_simp
  from row_encoding[OF a b, of "[]"] e
  have "to_bitfield [] row8_array 1 8
       = Inr ([] @ join [newline] [''0xf0,'' @ [tab] @ '' // 11110000''] @ [newline, newline])"
    by auto
  then show ?thesis using a b p e by simp
qed

text \<open>
  C10. When the number of digits \<open>n = ceil(max_width / 4)\<close> is odd, every line that
  \<open>to_bitfield\<close> writes has \<open>n div 2\<close> literals of two digits and then one literal
  of one digit, the digit of the row's number modulo 16; together \<open>(n + 1) div 2\<close>
  literals.
\<close>

theorem odd_digit_count:
  assumes "shape0 arr \<le> max_height" and "shape1 arr \<le> max_width"
    and "odd ((max_width + 3) div 4)"
  shows "\<exists>result.
           to_bitfield_result arr max_height max_width = Inr result
           \<and> to_bitfield file arr max_height max_width
               = Inr (file @ join [newline] result @ [newline, newline])
           \<and> length result = max_height
           \<and> (\<forall>i<max_height. \<exists>digits literals.
                 length digits = (max_width + 3) div 4
                 \<and> (\<forall>c\<in>set digits. c \<in> set ''0123456789abcdef'')
                 \<and> hex_to_nat digits
                     = bits_value (map (\<lambda>v. v \<noteq> 0) (pixel_row arr max_width i))
                 \<and> literals
                     = map (\<lambda>k. ''0x'' @ [digits ! (2 * k), digits ! (2 * k + 1)])
                         [0..<(max_width + 3) div 4 div 2]
                       @ [''0x'' @ [digit_char
                            (bits_value (map (\<lambda>v. v \<noteq> 0) (pixel_row arr max_width i)) mod 16)]]
                 \<and> length literals = ((max_width + 3) div 4 + 1) div 2
                 \<and> result ! i
                     = join '', '' literals
                       @ '','' @ [tab] @ '' '' @ OUTPUT_SEPARATOR
                       @ map (\<lambda>v. if v \<noteq> 0 then CHR ''1'' else CHR ''0'')
                           (pixel_row arr max_width i))"
proof -
  define width where "width = (max_width + 3) div 4"
  have pos: "0 < max_width" using assms(3) by (cases max_width) auto
  from to_bitfield_result_fits[OF assms(1,2) pos] obtain result where
    r: "to_bitfield_result arr max_height max_width = Inr result" by blast
  note lines = to_bitfield_result_lines[OF r]
  have row: "\<exists>digits literals.
                 length digits = width
                 \<and> (\<forall>c\<in>set digits. c \<in> set ''0123456789abcdef'')
                 \<and> hex_to_nat digits
                     = bits_value (map (\<lambda>v. v \<noteq> 0) (pixel_row arr max_width i))
                 \<and> literals
                     = map (\<lambda>k. ''0x'' @ [digits ! (2 * k), digits ! (2 * k + 1)])
                         [0..<width div 2]
                       @ [''0x'' @ [digit_char
                            (bits_value (map (\<lambda>v. v \<noteq> 0) (pixel_row arr max_width i)) mod 16)]]
                 \<and> length literals = (width + 1) div 2
                 \<and> result ! i
                     = join '', '' literals
                       @ '','' @ [tab] @ '' '' @ OUTPUT_SEPARATOR
                       @ map (\<lambda>v. if v \<noteq> 0 then CHR ''1'' else CHR ''0'')
                           (pixel_row arr max_width i)"
    if i: "i < max_height" for i
  proof -
    define row where "row = pixel_row arr max_width i"
    define v where "v = bits_value (map (\<lambda>v. v \<noteq> 0) row)"
    define digits where "digits = format_hex (int v) width"
    define literals where
      "literals = map (\<lambda>k. ''0x'' @ [digits ! (2 * k), digits ! (2 * k + 1)]) [0..<width div 2]
                  @ [''0x'' @ [digit_char (v mod 16)]]"
    have rl: "length row = max_width" by (simp add: row_def length_pixel_row)
    then have ne: "row \<noteq> []" using pos by auto
    have len: "length digits = width"
      using row_digits(3)[OF ne] rl by (simp add: digits_def width_def v_def)
    have odd: "length digits = 2 * (width div 2) + 1"
      using assms(3) len by (simp add: width_def)
    have chars: "\<forall>c\<in>set digits. c \<in> set ''0123456789abcdef''"
      using format_hex_chars digit_char_in_alphabet unfolding digits_def by blast
    have val: "hex_to_nat digits = v" by (simp add: digits_def format_hex_value)
    have lits: "map (\<lambda>g. ''0x'' @ g) (chunk2 digits) = literals"
      unfolding chunk2_odd[OF odd] literals_def
      by (simp add: digits_def format_hex_last)
    have ll: "length literals = (width + 1) div 2"
      using assms(3) by (simp add: literals_def width_def)
    have "result ! i
          = join '', '' (map (\<lambda>g. ''0x'' @ g) (chunk2 digits))
            @ '','' @ [tab] @ '' '' @ OUTPUT_SEPARATOR
            @ map (\<lambda>v. if v \<noteq> 0 then CHR ''1'' else CHR ''0'') row"
      using lines(3)[OF i]
      by (simp only: hex_with_padding_chunk2 digits_def row_def v_def width_def)
    then have line: "result ! i
          = join '', '' literals
            @ '','' @ [tab] @ '' '' @ OUTPUT_SEPARATOR
            @ map (\<lambda>v. if v \<noteq> 0 then CHR ''1'' else CHR ''0'') row"
      unfolding lits .
    show ?thesis
      using len chars val ll line
      unfolding literals_def v_def row_def by blast
  qed
  show ?thesis
    using r to_bitfield_writes[OF r] lines(1) row unfolding width_def by blast
qed

theorem odd_digit_count_witness:
  "shape0 row12_array \<le> 1 \<and> shape1 row12_array \<le> 12 \<and> odd ((12 + 3) div 4 :: nat)
   \<and> to_bitfield_result row12_array 1 12
       = Inr [join '', '' [''0xab'', ''0xc''] @ '','' @ [tab] @ '' // 101010111100'']
   \<and> (\<exists>result. to_bitfield_result row12_array 1 12 = Inr result \<and> length result = 1)"
proof -
  have a: "shape0 row12_array \<le> 1" and b: "shape1 row12_array \<le> 12"
    by (simp_all add: row12_array_def shape0_def)
  have o: "odd ((12 + 3) div 4 :: nat)" by simp
  have e: "to_bitfield_result row12_array 1 12
       = Inr [join '', '' [''0xab'', ''0xc''] @ '','' @ [tab] @ '' // 101010111100'']"
    by code_simp
  from odd_digit_count[OF a b o, of "[]"]
  have "\<exists>result. to_bitfield_result row12_array 1 12 = Inr result \<and> length result = 1"
    by blast
  then show ?thesis using a b o e by blast
qed

text \<open>
  C4, as stated: the literals of a line, read back as the bytes they are written as,
  are the bits of the comment after the zero bits added on the left. For a row of 12
  pixels there are 3 digits and no bit is added; the line is \<open>0xab, 0xc\<close> with the
  comment \<open>101010111100\<close>, and its two bytes are \<open>1010101100001100\<close>.
\<close>

theorem byte_reading_counterexample:
  "to_bitfield_result row12_array 1 12
     = Inr [''0xab, 0xc,'' @ [tab] @ '' // 101010111100'']
   \<and> decode_bytes ''0xab, 0xc''
       = Some (map (\<lambda>c. c = CHR ''1'') ''1010101100001100'')
   \<and> map (\<lambda>c. c = CHR ''1'') ''1010101100001100''
       \<noteq> replicate (4 * ((12 + 3) div 4) - 12) False @ map (\<lambda>c. c = CHR ''1'') ''101010111100''
   \<and> drop 4 (map (\<lambda>c. c = CHR ''1'') ''1010101100001100'')
       \<noteq> map (\<lambda>c. c = CHR ''1'') ''101010111100''"
  by code_simp

text \<open>
  C4, amended: in every line that \<open>to_bitfield\<close> writes the literals are bytes that
  can be read back. When the number of digits \<open>n = ceil(max_width / 4)\<close> is even,
  the bits of the bytes are \<open>4 * n - max_width\<close> zero bits and then the bits of the
  comment. When it is odd, the last literal has one digit and its byte has four zero
  bits before the digit's bits: the bits of the bytes are those same bits with four
  zero bits put in before the last four.
\<close>

theorem bytes_and_comment:
  assumes "shape0 arr \<le> max_height" and "shape1 arr \<le> max_width" and "0 < max_width"
  shows "\<exists>result.
           to_bitfield_result arr max_height max_width = Inr result
           \<and> to_bitfield file arr max_height max_width
               = Inr (file @ join [newline] result @ [newline, newline])
           \<and> length result = max_height
           \<and> (\<forall>i<max_height. \<exists>hexa com padded.
                 result ! i = hexa @ '','' @ [tab] @ '' '' @ OUTPUT_SEPARATOR @ com
                 \<and> com = map (\<lambda>v. if v \<noteq> 0 then CHR ''1'' else CHR ''0'')
                           (pixel_row arr max_width i)
                 \<and> padded = replicate (4 * ((max_width + 3) div 4) - max_width) False
                            @ map (\<lambda>c. c = CHR ''1'') com
                 \<and> (even ((max_width + 3) div 4) \<longrightarrow> decode_bytes hexa = Some padded)
                 \<and> (odd ((max_width + 3) div 4) \<longrightarrow>
                      decode_bytes hexa
                      = Some (take (4 * ((max_width + 3) div 4 - 1)) padded
                              @ replicate 4 False
                              @ drop (4 * ((max_width + 3) div 4 - 1)) padded)))"
proof -
  from to_bitfield_result_fits[OF assms] obtain result where
    r: "to_bitfield_result arr max_height max_width = Inr result" by blast
  note lines = to_bitfield_result_lines[OF r]
  have row: "\<exists>hexa com padded.
                 result ! i = hexa @ '','' @ [tab] @ '' '' @ OUTPUT_SEPARATOR @ com
                 \<and> com = map (\<lambda>v. if v \<noteq> 0 then CHR ''1'' else CHR ''0'')
                           (pixel_row arr max_width i)
                 \<and> padded = replicate (4 * ((max_width + 3) div 4) - max_width) False
                            @ map (\<lambda>c. c = CHR ''1'') com
                 \<and> (even ((max_width + 3) div 4) \<longrightarrow> decode_bytes hexa = Some padded)
                 \<and> (odd ((max_width + 3) div 4) \<longrightarrow>
                      decode_bytes hexa
                      = Some (take (4 * ((max_width + 3) div 4 - 1)) padded
                              @ replicate 4 False
                              @ drop (4 * ((max_width + 3) div 4 - 1)) padded))"
    if i: "i < max_height" for i
  proof -
    define row where "row = pixel_row arr max_width i"
    define com where "com = map (\<lambda>v. if v \<noteq> 0 then CHR ''1'' else CHR ''0'') row"
    define hexa where
      "hexa = hex_with_padding (int (bits_value (map (\<lambda>v. v \<noteq> 0) row)))
                ((max_width + 3) div 4)"
    define padded where
      "padded = replicate (4 * ((max_width + 3) div 4) - max_width) False
                @ map (\<lambda>c. c = CHR ''1'') com"
    have rl: "length row = max_width" by (simp add: row_def length_pixel_row)
    then have ne: "row \<noteq> []" using assms(3) by auto
    have bits: "map (\<lambda>c. c = CHR ''1'') com = map (\<lambda>v. v \<noteq> 0) row"
      by (simp add: com_def)
    have line: "result ! i = hexa @ '','' @ [tab] @ '' '' @ OUTPUT_SEPARATOR @ com"
      using lines(3)[OF i] by (simp only: hexa_def com_def row_def)
    have e: "decode_bytes hexa = Some padded" if "even ((max_width + 3) div 4)"
      using row_bytes(1)[OF ne] that unfolding rl hexa_def padded_def bits by simp
    have o: "decode_bytes hexa
             = Some (take (4 * ((max_width + 3) div 4 - 1)) padded @ replicate 4 False
                     @ drop (4 * ((max_width + 3) div 4 - 1)) padded)"
      if "odd ((max_width + 3) div 4)"
      using row_bytes(2)[OF ne] that unfolding rl hexa_def padded_def bits by simp
    show ?thesis
      using line e o unfolding com_def row_def padded_def by blast
  qed
  show ?thesis using r to_bitfield_writes[OF r] lines(1) row by blast
qed

theorem bytes_and_comment_witness:
  "shape0 sample_array \<le> 2 \<and> shape1 sample_array \<le> 6 \<and> even ((6 + 3) div 4 :: nat)
   \<and> to_bitfield_result sample_array 2 6
       = Inr [''0x2d,'' @ [tab] @ '' // 101101'', ''0x01,'' @ [tab] @ '' // 000001'']
   \<and> decode_bytes ''0x2d'' = Some ([False, False] @ map (\<lambda>c. c = CHR ''1'') ''101101'')
   \<and> decode_bytes ''0x01'' = Some ([False, False] @ map (\<lambda>c. c = CHR ''1'') ''000001'')
   \<and> (\<exists>result. to_bitfield_result sample_array 2 6 = Inr result \<and> length result = 2)"
proof -
  have a: "shape0 sample_array \<le> 2" and b: "shape1 sample_array \<le> 6"
    by (simp_all add: sample_array_def shape0_def)
  have v: "even ((6 + 3) div 4 :: nat)" by simp
  have e: "to_bitfield_result sample_array 2 6
       = Inr [''0x2d,'' @ [tab] @ '' // 101101'', ''0x01,'' @ [tab] @ '' // 000001'']"
    by code_simp
  have d1: "decode_bytes ''0x2d'' = Some ([False, False] @ map (\<lambda>c. c = CHR ''1'') ''101101'')"
    by code_simp
  have d2: "decode_bytes ''0x01'' = Some ([False, False] @ map (\<lambda>c. c = CHR ''1'') ''000001'')"
    by code_simp
  have p: "(0::nat) < 6" by simp
  from bytes_and_comment[OF a b p, of "[]"]
  have "\<exists>result. to_bitfield_result sample_array 2 6 = Inr result \<and> length result = 2"
    by blast
  then show ?thesis using a b v e d1 d2 by blast
qed

end
